theory Spec2Isabelle
  imports Complex_Main "HOL-Library.Product_Lexorder"
begin

section \<open>The VRAM manager of mcp-manager (services/vramManager.ts)\<close>

text \<open>
  The class \<^verbatim>\<open>VRAMManager\<close> keeps a \<^verbatim>\<open>Map\<close> from service names to
  \<^verbatim>\<open>ServiceInfo\<close> objects, a probed total, and three configuration numbers. Its
  methods are embedded below as functions from the object's state to its new state.

  Conventions of the embedding:
  \<^item> a JavaScript \<^verbatim>\<open>number\<close> that counts gigabytes or minutes is a finite IEEE 754
    double: a rational, with every sum, difference and quotient of the source rounded to
    the nearest double, ties to even (\<open>fadd\<close>, \<open>fsub\<close>, \<open>fdiv\<close>). \<^verbatim>\<open>NaN\<close>,
    the infinities and results beyond the largest double are outside the model;
  \<^item> a \<^verbatim>\<open>Date\<close> is its \<^verbatim>\<open>getTime()\<close>, an integer number of milliseconds;
  \<^item> the \<^verbatim>\<open>Map\<close> is an association list in insertion order: \<^verbatim>\<open>set\<close> on a key that is
    present replaces the value where it stands, \<^verbatim>\<open>set\<close> on a new key appends;
  \<^item> what a method reads from outside the object (the clock, the GPU probe, whether the
    config file can be written, the answer of the service's HTTP endpoint) is the record
    \<open>env\<close> passed to it; one call reads the clock once;
  \<^item> an \<^verbatim>\<open>async\<close> method whose \<^verbatim>\<open>await\<close> separates a read of the registry from a
    write is embedded in two parts, the one before and the one after the \<^verbatim>\<open>await\<close>, so
    that other calls can run in between (\<open>runSteps\<close>); \<open>run\<close> executes whole calls
    one after another;
  \<^item> what a method does outside the object is kept in fields of the state: the content
    of the file at \<^verbatim>\<open>servicesConfigPath\<close>, the list of outbound effects in the order
    in which they happen (a write of the file, a POST to a service, a warning after a
    POST that failed; the other console output is left out), and the answers of the
    POSTs that nobody has awaited yet.
  Record fields keep the source's names; where two interfaces share a field name the
  second one carries a prefix (\<open>mName\<close>/\<open>sName\<close> for the two \<^verbatim>\<open>name\<close> fields,
  \<open>status_\<close> for \<^verbatim>\<open>VRAMStatus\<close>, \<open>reg_\<close> for \<^verbatim>\<open>RegisterServiceResult\<close>).
\<close>

subsection \<open>Double arithmetic\<close>

text \<open>The number of binary digits of a natural number.\<close>

fun bitLength :: "nat \<Rightarrow> nat" where
  "bitLength n = (if n = 0 then 0 else Suc (bitLength (n div 2)))"

declare bitLength.simps [simp del]

text \<open>Rounding to the nearest integer, a tie to the even neighbour.\<close>

definition roundEven :: "rat \<Rightarrow> int" where
  "roundEven x =
     (let f = \<lfloor>x\<rfloor>; d = x - of_int f
      in if d < 1 / 2 then f else if 1 / 2 < d then f + 1 else if even f then f else f + 1)"

text \<open>The smallest positive double is \<open>2 powi - 1074\<close>.\<close>

definition subnormalBits :: nat where
  "subnormalBits = 1074"

text \<open>The exponent of the last of the 53 binary digits that a double keeps of \<open>x\<close>:
  52 below the exponent of the leading digit, and never below that of the smallest
  double.\<close>

definition exponentOf :: "rat \<Rightarrow> int" where
  "exponentOf x =
     (let m = \<bar>x\<bar> * 2 ^ subnormalBits
      in if m < 1 then - int subnormalBits
         else max (int (bitLength (nat \<lfloor>m\<rfloor>)) - 53 - int subnormalBits) (- int subnormalBits))"

text \<open>The double nearest to \<open>x\<close>.\<close>

definition rnd :: "rat \<Rightarrow> rat" where
  "rnd x = of_int (roundEven (x / 2 powi exponentOf x)) * 2 powi exponentOf x"

text \<open>The source's \<^verbatim>\<open>+\<close>, \<^verbatim>\<open>-\<close> and \<^verbatim>\<open>/\<close> on numbers.\<close>

definition fadd :: "rat \<Rightarrow> rat \<Rightarrow> rat" where
  "fadd a b = rnd (a + b)"

definition fsub :: "rat \<Rightarrow> rat \<Rightarrow> rat" where
  "fsub a b = rnd (a - b)"

definition fdiv :: "rat \<Rightarrow> rat \<Rightarrow> rat" where
  "fdiv a b = rnd (a / b)"

subsection \<open>Data\<close>

record ModelInfo =
  mName :: string
  vramUsageGb :: rat
  lastUsed :: int

record ServiceInfo =
  sName :: string
  url :: string
  models :: "ModelInfo list"
  usedVramGb :: rat

text \<open>The argument type \<^verbatim>\<open>{ name: string; vramUsageGb: number }\<close> of \<^verbatim>\<open>registerService\<close>,
  which is also the shape of a model in the config file.\<close>

type_synonym ModelSpec = "string \<times> rat"

text \<open>One entry of the config file: name, url, models.\<close>

type_synonym ServiceConfig = "string \<times> string \<times> ModelSpec list"

text \<open>The file at the config path: absent; with a content that \<^verbatim>\<open>JSON.parse\<close> rejects
  or that is no array; or an array of entries, where \<open>None\<close> stands for an entry whose
  \<^verbatim>\<open>models\<close> is no array, on which \<^verbatim>\<open>service.models.map\<close> throws.\<close>

datatype disk = Absent | Corrupt | Stored "ServiceConfig option list"

datatype effect =
    ConfigSaved "ServiceConfig list"
  | UnloadPosted string string
  | Warned

datatype message =
    ServiceNotFound string
  | ModelNotFound string string
  | ModelUnloaded string
  | NotEnoughVRAM rat rat
  | ServiceRegistered string

record VRAMStatus =
  status_totalVramGb :: rat
  status_usedVramGb :: rat
  status_availableVramGb :: rat
  status_services :: "(string \<times> rat \<times> string list) list"

record UnloadModelResult =
  success :: bool
  freedVramGb :: rat
  message :: message

record RegisterServiceResult =
  reg_success :: bool
  reg_message :: message

datatype gpu_probe = ProbeError | Controllers "rat option list"

datatype fetch_result = FetchOk | FetchNotOk | FetchThrows

record VRAMManager =
  services :: "(string \<times> ServiceInfo) list"
  maxVramUsageGb :: rat
  vramReserveGb :: rat
  enableAutoUnload :: bool
  unloadTimeoutMinutes :: rat
  totalVramGb :: rat
  configFile :: disk
  effects :: "effect list"
  inFlight :: "fetch_result list"

record env =
  now :: int
  gpu :: gpu_probe
  fsWritable :: bool
  fetchResult :: fetch_result

subsection \<open>The Map operations used by the class\<close>

definition map_get :: "(string \<times> 'v) list \<Rightarrow> string \<Rightarrow> 'v option" where
  "map_get m k = map_of m k"

fun map_set :: "string \<Rightarrow> 'v \<Rightarrow> (string \<times> 'v) list \<Rightarrow> (string \<times> 'v) list" where
  "map_set k v [] = [(k, v)]"
| "map_set k v ((k', v') # m) = (if k' = k then (k, v) # m else (k', v') # map_set k v m)"

definition map_values :: "(string \<times> 'v) list \<Rightarrow> 'v list" where
  "map_values m = map snd m"

text \<open>\<^verbatim>\<open>Array.prototype.findIndex\<close>, with \<open>None\<close> for the source's \<^verbatim>\<open>-1\<close>.\<close>

fun findIndex :: "('a \<Rightarrow> bool) \<Rightarrow> 'a list \<Rightarrow> nat option" where
  "findIndex P [] = None"
| "findIndex P (x # xs) =
     (if P x then Some 0 else (case findIndex P xs of None \<Rightarrow> None | Some i \<Rightarrow> Some (Suc i)))"

text \<open>\<^verbatim>\<open>xs.splice(i, 1)\<close>: the array without its element at index \<open>i\<close>.\<close>

definition splice1 :: "nat \<Rightarrow> 'a list \<Rightarrow> 'a list" where
  "splice1 i xs = take i xs @ drop (Suc i) xs"

subsection \<open>Probe and persistence\<close>

text \<open>\<^verbatim>\<open>updateTotalVram\<close>: the sum of the controllers' \<^verbatim>\<open>vram\<close> (in MB, \<^verbatim>\<open>null\<close> counted
  as 0) divided by 1024, and 64 when the probe throws or reports no controller.\<close>

definition updateTotalVram :: "env \<Rightarrow> VRAMManager \<Rightarrow> VRAMManager" where
  "updateTotalVram e st =
     (case gpu e of
        Controllers cs \<Rightarrow>
          if length cs > 0
          then st\<lparr>totalVramGb :=
                 foldl (\<lambda>total v. fadd total (fdiv (case v of None \<Rightarrow> 0 | Some x \<Rightarrow> x) 1024))
                       0 cs\<rparr>
          else st\<lparr>totalVramGb := 64\<rparr>
      | ProbeError \<Rightarrow> st\<lparr>totalVramGb := 64\<rparr>)"

definition loadedService :: "int \<Rightarrow> ServiceConfig \<Rightarrow> ServiceInfo" where
  "loadedService t service =
     \<lparr>sName = fst service,
      url = fst (snd service),
      models = map (\<lambda>model. \<lparr>mName = fst model, vramUsageGb = snd model, lastUsed = t\<rparr>)
                   (snd (snd service)),
      usedVramGb = foldl (\<lambda>total model. fadd total (snd model)) 0 (snd (snd service))\<rparr>"

text \<open>The loop of \<^verbatim>\<open>loadServicesFromConfig\<close> over the entries of the file. An entry that
  throws ends the loop; what was set before it stays.\<close>

fun loadEntries ::
  "int \<Rightarrow> ServiceConfig option list \<Rightarrow> (string \<times> ServiceInfo) list
     \<Rightarrow> (string \<times> ServiceInfo) list" where
  "loadEntries t [] m = m"
| "loadEntries t (None # rest) m = m"
| "loadEntries t (Some service # rest) m =
     loadEntries t rest (map_set (fst service) (loadedService t service) m)"

text \<open>\<^verbatim>\<open>loadServicesFromConfig\<close>: nothing is loaded when the file is absent or
  \<^verbatim>\<open>JSON.parse\<close> throws (the \<^verbatim>\<open>catch\<close> only logs).\<close>

definition loadServicesFromConfig :: "env \<Rightarrow> VRAMManager \<Rightarrow> VRAMManager" where
  "loadServicesFromConfig e st =
     (case configFile st of
        Stored servicesConfig \<Rightarrow>
          st\<lparr>services := loadEntries (now e) servicesConfig (services st)\<rparr>
      | _ \<Rightarrow> st)"

definition servicesConfigOf :: "(string \<times> ServiceInfo) list \<Rightarrow> ServiceConfig list" where
  "servicesConfigOf m =
     map (\<lambda>service. (sName service, url service,
                      map (\<lambda>model. (mName model, vramUsageGb model)) (models service)))
         (map_values m)"

text \<open>\<^verbatim>\<open>saveServicesToConfig\<close>: a failing write is caught and logged, the file stays.\<close>

definition saveServicesToConfig :: "env \<Rightarrow> VRAMManager \<Rightarrow> VRAMManager" where
  "saveServicesToConfig e st =
     (if fsWritable e
      then st\<lparr>configFile := Stored (map Some (servicesConfigOf (services st))),
              effects := effects st @ [ConfigSaved (servicesConfigOf (services st))]\<rparr>
      else st)"

subsection \<open>Unloading\<close>

text \<open>\<^verbatim>\<open>unloadModelInternal\<close> up to its \<^verbatim>\<open>await fetch\<close>. The body of an \<^verbatim>\<open>async\<close>
  function runs without interruption up to its first \<^verbatim>\<open>await\<close>: the model is removed,
  the file is saved and the request has left when the function is suspended. The result
  that the function will return is fixed by then.\<close>

definition unloadModelStart ::
  "string \<Rightarrow> string \<Rightarrow> env \<Rightarrow> VRAMManager \<Rightarrow> UnloadModelResult \<times> VRAMManager" where
  "unloadModelStart modelName serviceName e st =
     (case map_get (services st) serviceName of
        None \<Rightarrow>
          (\<lparr>success = False, freedVramGb = 0, message = ServiceNotFound serviceName\<rparr>, st)
      | Some service \<Rightarrow>
          (case findIndex (\<lambda>model. mName model = modelName) (models service) of
             None \<Rightarrow>
               (\<lparr>success = False, freedVramGb = 0,
                 message = ModelNotFound modelName serviceName\<rparr>, st)
           | Some modelIndex \<Rightarrow>
               (let model = models service ! modelIndex;
                    freed = vramUsageGb model;
                    service' = service\<lparr>models := splice1 modelIndex (models service),
                                      usedVramGb := fsub (usedVramGb service) freed\<rparr>;
                    st1 = st\<lparr>services := map_set serviceName service' (services st)\<rparr>;
                    st2 = saveServicesToConfig e st1;
                    st3 = st2\<lparr>effects := effects st2 @
                              [UnloadPosted (url service @ ''/models/unload'') modelName]\<rparr>
                in (\<lparr>success = True, freedVramGb = freed,
                     message = ModelUnloaded modelName\<rparr>, st3))))"

text \<open>What \<^verbatim>\<open>unloadModelInternal\<close> does after its \<^verbatim>\<open>await fetch\<close>, when the answer is
  there: it warns unless the answer is ok.\<close>

definition fetchSettled :: "fetch_result \<Rightarrow> VRAMManager \<Rightarrow> VRAMManager" where
  "fetchSettled answer st =
     (case answer of
        FetchOk \<Rightarrow> st
      | FetchNotOk \<Rightarrow> st\<lparr>effects := effects st @ [Warned]\<rparr>
      | FetchThrows \<Rightarrow> st\<lparr>effects := effects st @ [Warned]\<rparr>)"

text \<open>\<^verbatim>\<open>unloadModelInternal\<close> as a call that is awaited: the part before the
  \<^verbatim>\<open>await\<close>, and then, if a request has left, the part after it.\<close>

definition unloadModelInternal ::
  "string \<Rightarrow> string \<Rightarrow> env \<Rightarrow> VRAMManager \<Rightarrow> UnloadModelResult \<times> VRAMManager" where
  "unloadModelInternal modelName serviceName e st =
     (let (result, st3) = unloadModelStart modelName serviceName e st
      in (result, if success result then fetchSettled (fetchResult e) st3 else st3))"

text \<open>\<^verbatim>\<open>unloadModelInternal\<close> as the sweep calls it, without \<^verbatim>\<open>await\<close>: the part before
  the \<^verbatim>\<open>await\<close> runs at once, the answer of the request stays in flight, and the
  result is dropped.\<close>

definition unloadModelDetached :: "string \<Rightarrow> string \<Rightarrow> env \<Rightarrow> VRAMManager \<Rightarrow> VRAMManager" where
  "unloadModelDetached modelName serviceName e st =
     (let (result, st3) = unloadModelStart modelName serviceName e st
      in if success result then st3\<lparr>inFlight := inFlight st3 @ [fetchResult e]\<rparr> else st3)"

text \<open>The parts after the \<^verbatim>\<open>await\<close> of all requests in flight, in the order in which the
  requests left.\<close>

definition settleFetches :: "VRAMManager \<Rightarrow> VRAMManager" where
  "settleFetches st = (foldl (\<lambda>s answer. fetchSettled answer s) st (inFlight st))\<lparr>inFlight := []\<rparr>"

definition unloadModel ::
  "string \<Rightarrow> string \<Rightarrow> env \<Rightarrow> VRAMManager \<Rightarrow> UnloadModelResult \<times> VRAMManager" where
  "unloadModel modelName serviceName e st = unloadModelInternal modelName serviceName e st"

subsection \<open>Status and registration\<close>

definition getVRAMStatus :: "env \<Rightarrow> VRAMManager \<Rightarrow> VRAMStatus \<times> VRAMManager" where
  "getVRAMStatus e st =
     (let st1 = updateTotalVram e st;
          used = foldl (\<lambda>total service. fadd total (usedVramGb service)) 0
                       (map_values (services st1));
          available = max 0 (fsub (fsub (totalVramGb st1) used) (vramReserveGb st1));
          serviceStatus = map (\<lambda>service. (sName service, usedVramGb service,
                                            map mName (models service)))
                              (map_values (services st1))
      in (\<lparr>status_totalVramGb = totalVramGb st1, status_usedVramGb = used,
           status_availableVramGb = available, status_services = serviceStatus\<rparr>, st1))"

text \<open>\<^verbatim>\<open>registerService\<close> after its \<^verbatim>\<open>await this.getVRAMStatus()\<close>: the comparison of the
  requested total with the status that was taken before the \<^verbatim>\<open>await\<close>, and the commit.
  The state is the one that the continuation finds.\<close>

definition registerServiceDecide ::
  "string \<Rightarrow> string \<Rightarrow> ModelSpec list \<Rightarrow> VRAMStatus \<Rightarrow> env \<Rightarrow> VRAMManager
     \<Rightarrow> RegisterServiceResult \<times> VRAMManager" where
  "registerServiceDecide serviceName serviceUrl ms status e st1 =
     (let serviceVramUsage = foldl (\<lambda>total model. fadd total (snd model)) 0 ms
      in if serviceVramUsage > status_availableVramGb status
         then (\<lparr>reg_success = False,
                 reg_message = NotEnoughVRAM serviceVramUsage (status_availableVramGb status)\<rparr>,
               st1)
         else
           (let serviceInfo =
                  \<lparr>sName = serviceName, url = serviceUrl,
                   models = map (\<lambda>model. \<lparr>mName = fst model, vramUsageGb = snd model,
                                           lastUsed = now e\<rparr>) ms,
                   usedVramGb = serviceVramUsage\<rparr>;
                st2 = st1\<lparr>services := map_set serviceName serviceInfo (services st1)\<rparr>;
                st3 = saveServicesToConfig e st2
            in (\<lparr>reg_success = True, reg_message = ServiceRegistered serviceName\<rparr>, st3)))"

text \<open>\<^verbatim>\<open>registerService\<close> as a call during which nothing else runs.\<close>

definition registerService ::
  "string \<Rightarrow> string \<Rightarrow> ModelSpec list \<Rightarrow> env \<Rightarrow> VRAMManager
     \<Rightarrow> RegisterServiceResult \<times> VRAMManager" where
  "registerService serviceName serviceUrl ms e st =
     (let (status, st1) = getVRAMStatus e st
      in registerServiceDecide serviceName serviceUrl ms status e st1)"

definition updateModelUsage ::
  "string \<Rightarrow> string \<Rightarrow> env \<Rightarrow> VRAMManager \<Rightarrow> bool \<times> VRAMManager" where
  "updateModelUsage modelName serviceName e st =
     (case map_get (services st) serviceName of
        None \<Rightarrow> (False, st)
      | Some service \<Rightarrow>
          (case findIndex (\<lambda>model. mName model = modelName) (models service) of
             None \<Rightarrow> (False, st)
           | Some i \<Rightarrow>
               (True,
                st\<lparr>services :=
                     map_set serviceName
                       (service\<lparr>models := (models service)
                                   [i := (models service ! i)\<lparr>lastUsed := now e\<rparr>]\<rparr>)
                       (services st)\<rparr>)))"

definition getServiceList :: "VRAMManager \<Rightarrow> (string \<times> string) list" where
  "getServiceList st = map (\<lambda>service. (sName service, url service)) (map_values (services st))"

subsection \<open>The idle sweep\<close>

text \<open>Facts about \<open>map_set\<close> and the unload that the termination of the sweep rests on:
  an unload keeps every entry of the Map in its place and makes no model list longer.\<close>

lemma map_set_present_rel:
  "map_of m k = Some v \<Longrightarrow> Q v v' \<Longrightarrow> (\<And>x. Q x x) \<Longrightarrow>
   list_all2 (\<lambda>a b. fst a = fst b \<and> Q (snd a) (snd b)) m (map_set k v' m)"
proof (induction m)
  case Nil
  then show ?case by simp
next
  case (Cons a m)
  then show ?case
    by (cases a) (auto simp: list_all2_refl split: if_splits)
qed

lemma saveServicesToConfig_services [simp]:
  "services (saveServicesToConfig e st) = services st"
  by (simp add: saveServicesToConfig_def)

lemma fetchSettled_services [simp]: "services (fetchSettled answer st) = services st"
  by (simp add: fetchSettled_def split: fetch_result.split)

lemma unloadModelInternal_services [simp]:
  "services (snd (unloadModelInternal modelName serviceName e st))
     = services (snd (unloadModelStart modelName serviceName e st))"
  by (simp add: unloadModelInternal_def split_beta)

lemma unloadModelDetached_services [simp]:
  "services (unloadModelDetached modelName serviceName e st)
     = services (snd (unloadModelStart modelName serviceName e st))"
  by (simp add: unloadModelDetached_def split_beta)

lemma unloadModelInternal_result [simp]:
  "fst (unloadModelInternal modelName serviceName e st)
     = fst (unloadModelStart modelName serviceName e st)"
  by (simp add: unloadModelInternal_def split_beta)

lemma unload_services_rel:
  "list_all2 (\<lambda>a b. fst a = fst b \<and> length (models (snd b)) \<le> length (models (snd a)))
     (services st) (services (snd (unloadModelStart modelName serviceName e st)))"
proof (cases "map_get (services st) serviceName")
  case None
  then show ?thesis by (simp add: unloadModelStart_def list_all2_refl)
next
  case (Some service)
  note found = this
  show ?thesis
  proof (cases "findIndex (\<lambda>model. mName model = modelName) (models service)")
    case None
    with found show ?thesis by (simp add: unloadModelStart_def list_all2_refl)
  next
    case (Some i)
    let ?service' = "service\<lparr>models := splice1 i (models service),
                       usedVramGb := fsub (usedVramGb service) (vramUsageGb (models service ! i))\<rparr>"
    have "list_all2 (\<lambda>a b. fst a = fst b \<and> length (models (snd b)) \<le> length (models (snd a)))
            (services st) (map_set serviceName ?service' (services st))"
      using found
      by (intro map_set_present_rel [where v = service]) (auto simp: map_get_def splice1_def)
    with Some found show ?thesis
      by (simp add: unloadModelStart_def Let_def)
  qed
qed

text \<open>The inner loop of \<^verbatim>\<open>autoUnloadInactiveModels\<close>,
  \<^verbatim>\<open>for (const model of service.models)\<close>, where \<^verbatim>\<open>service\<close> is the object at
  position \<open>p\<close> of the Map. The array iterator holds an index \<open>i\<close> and reads the
  array's current length and its current element \<open>i\<close> at every step, so what the unload
  splices out of the array during the loop shifts the elements the iterator has not
  reached yet. The sweep does not await the unload: the removal, the save and the request
  happen inside the call, before the loop goes on, and the answers come when the sweep is
  over. The counter \<^verbatim>\<open>unloadedModels\<close> only feeds a log line and is left out.\<close>

function sweepModels :: "env \<Rightarrow> nat \<Rightarrow> nat \<Rightarrow> VRAMManager \<Rightarrow> VRAMManager" where
  "sweepModels e p i st =
     (if p < length (services st) then
        (let service = snd (services st ! p) in
         if i < length (models service) then
           (let model = models service ! i;
                minutesSinceLastUse =
                  fdiv (fsub (of_int (now e)) (of_int (lastUsed model))) (1000 * 60)
            in if minutesSinceLastUse > unloadTimeoutMinutes st
               then sweepModels e p (Suc i)
                      (unloadModelDetached (mName model) (sName service) e st)
               else sweepModels e p (Suc i) st)
         else st)
      else st)"
  by pat_completeness auto
termination
proof (relation "measure (\<lambda>(e, p, i, st). length (models (snd (services st ! p))) - i)")
  show "wf (measure (\<lambda>(e, p, i, st). length (models (snd (services st ! p))) - i))"
    by simp
next
  fix e :: env and p i :: nat and st :: VRAMManager and x :: ServiceInfo and xa :: ModelInfo
  assume p: "p < length (services st)" and x: "x = snd (services st ! p)"
    and i: "i < length (models x)"
  have "length (models (snd (services (unloadModelDetached (mName xa) (sName x) e st) ! p)))
          \<le> length (models (snd (services st ! p)))"
    using list_all2_nthD [OF unload_services_rel p] by simp
  with i x show "((e, p, Suc i, unloadModelDetached (mName xa) (sName x) e st), e, p, i, st)
      \<in> measure (\<lambda>(e, p, i, st). length (models (snd (services st ! p))) - i)"
    by simp
next
  fix e :: env and p i :: nat and st :: VRAMManager and x :: ServiceInfo
  assume "i < length (models x)" "x = snd (services st ! p)"
  then show "((e, p, Suc i, st), e, p, i, st)
      \<in> measure (\<lambda>(e, p, i, st). length (models (snd (services st ! p))) - i)"
    by simp
qed

declare sweepModels.simps [simp del]

lemma unload_length_services:
  "length (services (snd (unloadModelStart modelName serviceName e st))) = length (services st)"
  using list_all2_lengthD [OF unload_services_rel] by simp

lemma sweepModels_length_services:
  "length (services (sweepModels e p i st)) = length (services st)"
proof (induction e p i st rule: sweepModels.induct)
  case (1 e p i st)
  show ?case
    using "1.IH" [OF _ refl _ refl refl]
    by (subst sweepModels.simps) (simp add: Let_def unload_length_services)
qed

text \<open>The outer loop, \<^verbatim>\<open>for (const service of this.services.values())\<close>: the Map
  iterator walks the entries in insertion order.\<close>

function sweepServices :: "env \<Rightarrow> nat \<Rightarrow> VRAMManager \<Rightarrow> VRAMManager" where
  "sweepServices e p st =
     (if p < length (services st) then sweepServices e (Suc p) (sweepModels e p 0 st) else st)"
  by pat_completeness auto
termination
  by (relation "measure (\<lambda>(e, p, st). length (services st) - p)")
     (simp_all add: sweepModels_length_services)

declare sweepServices.simps [simp del]

text \<open>\<^verbatim>\<open>autoUnloadInactiveModels\<close>, and then the continuations of the unloads it
  started.\<close>

definition autoUnloadInactiveModels :: "env \<Rightarrow> VRAMManager \<Rightarrow> VRAMManager" where
  "autoUnloadInactiveModels e st = settleFetches (sweepServices e 0 st)"

subsection \<open>Construction and runs of public calls\<close>

text \<open>The object before the constructor loads the config file: an empty Map and a total
  of 0. The arguments are the values the constructor parses from the environment
  variables, and the content of the file at the config path.\<close>

definition emptyManager :: "rat \<Rightarrow> rat \<Rightarrow> bool \<Rightarrow> rat \<Rightarrow> disk \<Rightarrow> VRAMManager" where
  "emptyManager maxGb reserveGb autoUnload timeoutMinutes file =
     \<lparr>services = [], maxVramUsageGb = maxGb, vramReserveGb = reserveGb,
      enableAutoUnload = autoUnload, unloadTimeoutMinutes = timeoutMinutes,
      totalVramGb = 0, configFile = file, effects = [], inFlight = []\<rparr>"

definition newVRAMManager :: "rat \<Rightarrow> rat \<Rightarrow> bool \<Rightarrow> rat \<Rightarrow> disk \<Rightarrow> env \<Rightarrow> VRAMManager" where
  "newVRAMManager maxGb reserveGb autoUnload timeoutMinutes file e =
     loadServicesFromConfig e (emptyManager maxGb reserveGb autoUnload timeoutMinutes file)"

text \<open>The calls that change or read the registry: the four public methods and the sweep
  that the timer fires.\<close>

datatype call =
    RegisterService string string "ModelSpec list"
  | UnloadModel string string
  | UpdateModelUsage string string
  | AutoUnloadInactiveModels
  | GetVRAMStatus

text \<open>A call during which nothing else runs.\<close>

fun exec :: "call \<Rightarrow> env \<Rightarrow> VRAMManager \<Rightarrow> VRAMManager" where
  "exec (RegisterService serviceName serviceUrl ms) e st =
     snd (registerService serviceName serviceUrl ms e st)"
| "exec (UnloadModel modelName serviceName) e st = snd (unloadModel modelName serviceName e st)"
| "exec (UpdateModelUsage modelName serviceName) e st =
     snd (updateModelUsage modelName serviceName e st)"
| "exec AutoUnloadInactiveModels e st = autoUnloadInactiveModels e st"
| "exec GetVRAMStatus e st = snd (getVRAMStatus e st)"

fun run :: "(call \<times> env) list \<Rightarrow> VRAMManager \<Rightarrow> VRAMManager" where
  "run [] st = st"
| "run ((c, e) # cs) st = run cs (exec c e st)"

text \<open>Calls that overlap. \<^verbatim>\<open>registerService\<close> reads the registry inside
  \<^verbatim>\<open>getVRAMStatus\<close> and writes it after the \<^verbatim>\<open>await\<close> of that call, so between the
  two steps of one registration other calls, and steps of other registrations, can run.
  A registration in flight is known by a number; what it keeps across the \<^verbatim>\<open>await\<close>
  is the status. The other calls write the registry, if at all, before their first
  \<^verbatim>\<open>await\<close>, and are single steps. Inside \<^verbatim>\<open>getVRAMStatus\<close> the write of the
  probed total and the reads of the total and of the registry are taken as one step: the
  status is computed from the total of its own probe.\<close>

datatype step =
    Call call env
  | RegisterStatus nat env
  | RegisterDecide nat string string "ModelSpec list" env

fun stepExec ::
  "step \<Rightarrow> (nat \<Rightarrow> VRAMStatus option) \<times> VRAMManager
     \<Rightarrow> (nat \<Rightarrow> VRAMStatus option) \<times> VRAMManager" where
  "stepExec (Call c e) (pending, st) = (pending, exec c e st)"
| "stepExec (RegisterStatus r e) (pending, st) =
     (pending(r \<mapsto> fst (getVRAMStatus e st)), snd (getVRAMStatus e st))"
| "stepExec (RegisterDecide r serviceName serviceUrl ms e) (pending, st) =
     (case pending r of
        None \<Rightarrow> (pending, st)
      | Some status \<Rightarrow>
          (pending(r := None),
           snd (registerServiceDecide serviceName serviceUrl ms status e st)))"

fun runSteps ::
  "step list \<Rightarrow> (nat \<Rightarrow> VRAMStatus option) \<times> VRAMManager
     \<Rightarrow> (nat \<Rightarrow> VRAMStatus option) \<times> VRAMManager" where
  "runSteps [] s = s"
| "runSteps (x # xs) s = runSteps xs (stepExec x s)"

text \<open>A schedule in which registrations stay apart: while one registration is between
  its status read and its decision, no other registration reads the status or decides;
  the other calls may run in between. The first argument is the registration in flight.\<close>

fun apart :: "nat option \<Rightarrow> step list \<Rightarrow> bool" where
  "apart p [] = True"
| "apart p (Call (RegisterService serviceName serviceUrl ms) e # xs) = (p = None \<and> apart None xs)"
| "apart p (Call c e # xs) = apart p xs"
| "apart p (RegisterStatus r e # xs) = (p = None \<and> apart (Some r) xs)"
| "apart p (RegisterDecide r serviceName serviceUrl ms e # xs) = (p = Some r \<and> apart None xs)"

subsection \<open>What the claims speak about\<close>

text \<open>The models held by all services, and the gigabytes they commit together (the sum
  in exact arithmetic).\<close>

definition allModels :: "VRAMManager \<Rightarrow> ModelInfo list" where
  "allModels st = concat (map (\<lambda>service. models service) (map_values (services st)))"

definition committedGb :: "VRAMManager \<Rightarrow> rat" where
  "committedGb st = sum_list (map vramUsageGb (allModels st))"

text \<open>What one probe makes of the total.\<close>

definition probedTotal :: "gpu_probe \<Rightarrow> rat" where
  "probedTotal g = totalVramGb (updateTotalVram \<lparr>now = 0, gpu = g, fsWritable = True,
     fetchResult = FetchOk\<rparr> (emptyManager 0 0 False 0 Absent))"

section \<open>Facts about double arithmetic\<close>

lemma bitLength_le: "n < 2 ^ j \<Longrightarrow> bitLength n \<le> j"
proof (induction n arbitrary: j rule: bitLength.induct)
  case (1 n)
  show ?case
  proof (cases "n = 0")
    case True
    then show ?thesis by (simp add: bitLength.simps)
  next
    case False
    with "1.prems" obtain i where j: "j = Suc i" by (cases j) auto
    with "1.prems" have "n div 2 < 2 ^ i" by auto
    from "1.IH" [OF False this] False j show ?thesis
      by (subst bitLength.simps) simp
  qed
qed

lemma bitLength_ge: "2 ^ j \<le> n \<Longrightarrow> Suc j \<le> bitLength n"
proof (induction n arbitrary: j rule: bitLength.induct)
  case (1 n)
  have "(0::nat) < 2 ^ j" by simp
  with "1.prems" have nz: "n \<noteq> 0" by linarith
  show ?case
  proof (cases j)
    case 0
    with nz show ?thesis by (subst bitLength.simps) simp
  next
    case (Suc i)
    with "1.prems" have "2 ^ i \<le> n div 2" by auto
    from "1.IH" [OF nz this] nz Suc show ?thesis
      by (subst bitLength.simps) simp
  qed
qed

lemma bitLength_eq: "2 ^ j \<le> n \<Longrightarrow> n < 2 ^ Suc j \<Longrightarrow> bitLength n = Suc j"
  using bitLength_le [of n "Suc j"] bitLength_ge [of j n] by simp

lemma roundEven_of_int [simp]: "roundEven (of_int z) = z"
  by (simp add: roundEven_def)


lemma exponentOf_ge: "- int subnormalBits \<le> exponentOf x"
  by (simp add: exponentOf_def Let_def)

lemma exponentOf_grid:
  assumes "\<bar>n\<bar> < 2 ^ 53" and "k \<le> subnormalBits"
  shows "exponentOf (of_int n / 2 ^ k) \<le> - int k"
proof -
  let ?x = "of_int n / 2 ^ k :: rat"
  let ?m = "\<bar>?x\<bar> * 2 ^ subnormalBits"
  have pw: "(2::rat) ^ subnormalBits = 2 ^ (subnormalBits - k) * 2 ^ k"
    using assms(2) by (simp flip: power_add)
  have m: "?m = of_int (\<bar>n\<bar> * 2 ^ (subnormalBits - k))"
    by (simp add: pw abs_divide)
  show ?thesis
  proof (cases "?m < 1")
    case True
    with assms(2) show ?thesis by (simp add: exponentOf_def Let_def)
  next
    case False
    have "\<bar>n\<bar> * 2 ^ (subnormalBits - k) < 2 ^ 53 * 2 ^ (subnormalBits - k)"
      using assms(1) by simp
    also have "\<dots> = (2::int) ^ (53 + (subnormalBits - k))"
      by (rule power_add [symmetric])
    also have "53 + (subnormalBits - k) = 53 + subnormalBits - k"
      using assms(2) by simp
    finally have "nat (\<bar>n\<bar> * 2 ^ (subnormalBits - k)) < 2 ^ (53 + subnormalBits - k)"
      by (simp add: nat_less_iff)
    then have "bitLength (nat \<lfloor>?m\<rfloor>) \<le> 53 + subnormalBits - k"
      unfolding m floor_of_int by (rule bitLength_le)
    with assms(2) have "int (bitLength (nat \<lfloor>?m\<rfloor>)) - 53 - int subnormalBits \<le> - int k"
      by linarith
    with False assms(2) show ?thesis
      by (simp add: exponentOf_def Let_def)
  qed
qed

lemma rnd_grid:
  assumes "\<bar>n\<bar> < 2 ^ 53" and "k \<le> subnormalBits"
  shows "rnd (of_int n / 2 ^ k) = of_int n / 2 ^ k"
proof -
  let ?x = "of_int n / 2 ^ k :: rat"
  define j where "j = nat (- exponentOf ?x)"
  from exponentOf_grid [OF assms] have e: "exponentOf ?x = - int j" and kj: "k \<le> j"
    by (simp_all add: j_def)
  have p: "(2::rat) powi exponentOf ?x = 1 / 2 ^ j"
    by (simp add: e power_int_minus field_simps)
  have pw: "(2::rat) ^ j = 2 ^ (j - k) * 2 ^ k"
    using kj by (simp flip: power_add)
  have "?x / 2 powi exponentOf ?x = of_int (n * 2 ^ (j - k))"
    by (simp add: p pw)
  then have "rnd ?x = of_int (n * 2 ^ (j - k)) * (1 / 2 ^ j)"
    by (simp only: rnd_def roundEven_of_int p)
  also have "\<dots> = ?x" by (simp add: pw)
  finally show ?thesis .
qed

lemma rnd_of_int: "\<bar>z\<bar> < 2 ^ 53 \<Longrightarrow> rnd (of_int z) = of_int z"
  using rnd_grid [of z 0] by simp

lemma rnd_0 [simp]: "rnd 0 = 0"
  using rnd_of_int [of 0] by simp

lemma rnd_1 [simp]: "rnd 1 = 1"
  using rnd_of_int [of 1] by simp

lemma rnd_numeral [simp]:
  "(numeral w :: int) < 9007199254740992 \<Longrightarrow> rnd (numeral w) = numeral w"
  using rnd_of_int [of "numeral w"] by simp

lemma rnd_neg_numeral [simp]:
  "(numeral w :: int) < 9007199254740992 \<Longrightarrow> rnd (- numeral w) = - numeral w"
  using rnd_of_int [of "- numeral w"] by simp

text \<open>The exponent of a value in a known binade, for rounding by hand.\<close>

lemma exponentOf_eq:
  assumes "2 powi (e + 52) \<le> \<bar>x\<bar>" and "\<bar>x\<bar> < 2 powi (e + 53)"
    and "- int subnormalBits \<le> e"
  shows "exponentOf x = e"
proof -
  let ?m = "\<bar>x\<bar> * 2 ^ subnormalBits"
  define j where "j = nat (e + 52 + int subnormalBits)"
  from assms(3) have j: "int j = e + 52 + int subnormalBits" by (simp add: j_def)
  have shift: "(2::rat) powi a * 2 ^ subnormalBits = 2 powi (a + int subnormalBits)" for a
  proof -
    have "(2::rat) powi (a + int subnormalBits) = 2 powi a * 2 powi (int subnormalBits)"
      by (rule power_int_add) simp
    then show ?thesis by (simp only: power_int_of_nat)
  qed
  have lo: "(2::rat) powi (e + 52) * 2 ^ subnormalBits = 2 ^ j"
    unfolding shift j [symmetric] by (rule power_int_of_nat)
  have "e + 53 + int subnormalBits = int (Suc j)" using j by simp
  then have hi: "(2::rat) powi (e + 53) * 2 ^ subnormalBits = 2 ^ Suc j"
    unfolding shift by (simp only: power_int_of_nat)
  from assms(1) have "2 powi (e + 52) * 2 ^ subnormalBits \<le> ?m" by simp
  then have m1: "2 ^ j \<le> ?m" by (simp only: lo)
  from assms(2) have "?m < 2 powi (e + 53) * 2 ^ subnormalBits" by simp
  then have m2: "?m < 2 ^ Suc j" by (simp only: hi)
  have "(1::rat) \<le> 2 ^ j" by simp
  with m1 have ge1: "\<not> ?m < 1" by linarith
  have f1: "(2::int) ^ j \<le> \<lfloor>?m\<rfloor>"
    using m1 by (simp add: le_floor_iff)
  have f2: "\<lfloor>?m\<rfloor> < (2::int) ^ Suc j"
    using m2 by (simp add: floor_less_iff)
  have "bitLength (nat \<lfloor>?m\<rfloor>) = Suc j"
  proof (rule bitLength_eq)
    show "2 ^ j \<le> nat \<lfloor>?m\<rfloor>" using f1 by (simp add: le_nat_iff)
    show "nat \<lfloor>?m\<rfloor> < 2 ^ Suc j" using f2 f1 by (simp add: nat_less_iff)
  qed
  with ge1 j assms(3) show ?thesis
    by (simp add: exponentOf_def Let_def)
qed

lemma rnd_in_binade:
  assumes "2 powi (e + 52) \<le> \<bar>x\<bar>" and "\<bar>x\<bar> < 2 powi (e + 53)"
    and "- int subnormalBits \<le> e"
  shows "rnd x = of_int (roundEven (x / 2 powi e)) * 2 powi e"
  by (simp add: rnd_def exponentOf_eq [OF assms])

lemma rnd_eval:
  assumes "2 powi (e + 52) \<le> \<bar>x\<bar>" and "\<bar>x\<bar> < 2 powi (e + 53)"
    and "- int subnormalBits \<le> e"
    and "roundEven (x / 2 powi e) = z" and "of_int z * 2 powi e = y"
  shows "rnd x = y"
  using rnd_in_binade [OF assms(1-3)] assms(4,5) by simp

lemma rnd_dyadic:
  assumes "x = y" and "y = of_int n / 2 ^ k" and "\<bar>n\<bar> < 2 ^ 53" and "k \<le> subnormalBits"
  shows "rnd x = y"
  unfolding assms(1) assms(2) by (rule rnd_grid [OF assms(3,4)])

lemma floor_numeral_div [simp]:
  "\<lfloor>numeral a / numeral b :: rat\<rfloor> = numeral a div numeral b"
  using floor_divide_of_int_eq [of "numeral a" "numeral b", where ?'a = rat] by simp

section \<open>Facts about the list and Map operations\<close>

lemma foldl_add_sum_list:
  "foldl (\<lambda>total x. total + f x) a xs = (a::rat) + sum_list (map f xs)"
  by (induction xs arbitrary: a) simp_all

lemma map_of_map_set: "map_of (map_set k v m) = (map_of m)(k \<mapsto> v)"
  by (induction m) (auto simp: fun_eq_iff)

lemma keys_map_set:
  "map fst (map_set k v m) = (if k \<in> set (map fst m) then map fst m else map fst m @ [k])"
  by (induction m) (auto simp: rev_image_eqI)

lemma distinct_keys_map_set:
  "distinct (map fst m) \<Longrightarrow> distinct (map fst (map_set k v m))"
  by (simp add: keys_map_set)

lemma list_all_values_map_set:
  "list_all P (map_values m) \<Longrightarrow> P v \<Longrightarrow> list_all P (map_values (map_set k v m))"
  by (induction m) (auto simp: map_values_def)

lemma sum_values_map_set:
  fixes g :: "'v \<Rightarrow> rat"
  shows "sum_list (map g (map_values (map_set k v m))) =
         sum_list (map g (map_values m)) - (case map_of m k of None \<Rightarrow> 0 | Some old \<Rightarrow> g old) + g v"
  by (induction m) (auto simp: map_values_def)

lemma map_of_values: "map_of m k = Some v \<Longrightarrow> v \<in> set (map_values m)"
  by (auto simp: map_values_def dest: map_of_SomeD intro: rev_image_eqI)

lemma findIndex_Some:
  "findIndex P xs = Some i \<Longrightarrow> i < length xs \<and> P (xs ! i) \<and> (\<forall>j<i. \<not> P (xs ! j))"
proof (induction xs arbitrary: i)
  case Nil
  then show ?case by simp
next
  case (Cons x xs)
  show ?case
  proof (cases "P x")
    case True
    with Cons.prems show ?thesis by simp
  next
    case False
    with Cons.prems obtain j where j: "findIndex P xs = Some j" "i = Suc j"
      by (auto split: option.splits)
    from Cons.IH [OF j(1)] False j(2) show ?thesis
      by (auto simp: less_Suc_eq_0_disj)
  qed
qed

lemma findIndex_None: "findIndex P xs = None \<longleftrightarrow> (\<forall>x \<in> set xs. \<not> P x)"
  by (induction xs) (auto split: option.splits)

lemma set_splice1: "set (splice1 i xs) \<subseteq> set xs"
  by (auto simp: splice1_def dest: in_set_takeD in_set_dropD)

lemma sum_list_splice1:
  fixes f :: "'a \<Rightarrow> rat"
  assumes "i < length xs"
  shows "sum_list (map f (splice1 i xs)) = sum_list (map f xs) - f (xs ! i)"
proof -
  have "xs = take i xs @ xs ! i # drop (Suc i) xs"
    using assms by (simp add: id_take_nth_drop)
  then have "sum_list (map f xs) = sum_list (map f (take i xs)) + f (xs ! i) + sum_list (map f (drop (Suc i) xs))"
    by (metis (no_types, lifting) add.assoc list.simps(9) map_append sum_list.Cons sum_list.append)
  then show ?thesis by (simp add: splice1_def)
qed

section \<open>What each method does to the registry\<close>

text \<open>A service after the removal of its model at index \<open>i\<close>.\<close>

definition unloaded :: "nat \<Rightarrow> ServiceInfo \<Rightarrow> ServiceInfo" where
  "unloaded i service =
     service\<lparr>models := splice1 i (models service),
             usedVramGb := fsub (usedVramGb service) (vramUsageGb (models service ! i))\<rparr>"

lemma start_no_service:
  "map_get (services st) serviceName = None \<Longrightarrow>
   unloadModelStart modelName serviceName e st =
     (\<lparr>success = False, freedVramGb = 0, message = ServiceNotFound serviceName\<rparr>, st)"
  by (simp add: unloadModelStart_def)

lemma start_no_model:
  "map_get (services st) serviceName = Some service \<Longrightarrow>
   findIndex (\<lambda>model. mName model = modelName) (models service) = None \<Longrightarrow>
   unloadModelStart modelName serviceName e st =
     (\<lparr>success = False, freedVramGb = 0, message = ModelNotFound modelName serviceName\<rparr>, st)"
  by (simp add: unloadModelStart_def)

lemma start_found:
  "map_get (services st) serviceName = Some service \<Longrightarrow>
   findIndex (\<lambda>model. mName model = modelName) (models service) = Some i \<Longrightarrow>
   unloadModelStart modelName serviceName e st =
     (\<lparr>success = True, freedVramGb = vramUsageGb (models service ! i),
       message = ModelUnloaded modelName\<rparr>,
      (saveServicesToConfig e
         (st\<lparr>services := map_set serviceName (unloaded i service) (services st)\<rparr>))
        \<lparr>effects :=
           effects (saveServicesToConfig e
             (st\<lparr>services := map_set serviceName (unloaded i service) (services st)\<rparr>))
           @ [UnloadPosted (url service @ ''/models/unload'') modelName]\<rparr>)"
  by (simp add: unloadModelStart_def Let_def unloaded_def)

lemma unload_no_service:
  "map_get (services st) serviceName = None \<Longrightarrow>
   unloadModelInternal modelName serviceName e st =
     (\<lparr>success = False, freedVramGb = 0, message = ServiceNotFound serviceName\<rparr>, st)"
  by (simp add: unloadModelInternal_def start_no_service)

lemma unload_no_model:
  "map_get (services st) serviceName = Some service \<Longrightarrow>
   findIndex (\<lambda>model. mName model = modelName) (models service) = None \<Longrightarrow>
   unloadModelInternal modelName serviceName e st =
     (\<lparr>success = False, freedVramGb = 0, message = ModelNotFound modelName serviceName\<rparr>, st)"
  by (simp add: unloadModelInternal_def start_no_model)

lemma detached_no_service:
  "map_get (services st) serviceName = None \<Longrightarrow>
   unloadModelDetached modelName serviceName e st = st"
  by (simp add: unloadModelDetached_def start_no_service)

lemma detached_no_model:
  "map_get (services st) serviceName = Some service \<Longrightarrow>
   findIndex (\<lambda>model. mName model = modelName) (models service) = None \<Longrightarrow>
   unloadModelDetached modelName serviceName e st = st"
  by (simp add: unloadModelDetached_def start_no_model)

lemma unload_found_result:
  "map_get (services st) serviceName = Some service \<Longrightarrow>
   findIndex (\<lambda>model. mName model = modelName) (models service) = Some i \<Longrightarrow>
   fst (unloadModelStart modelName serviceName e st) =
     \<lparr>success = True, freedVramGb = vramUsageGb (models service ! i),
      message = ModelUnloaded modelName\<rparr>"
  by (simp add: start_found)

lemma unload_found_services:
  "map_get (services st) serviceName = Some service \<Longrightarrow>
   findIndex (\<lambda>model. mName model = modelName) (models service) = Some i \<Longrightarrow>
   services (snd (unloadModelStart modelName serviceName e st)) =
     map_set serviceName (unloaded i service) (services st)"
  by (simp add: start_found)

text \<open>An unload either leaves the registry as it is or replaces one service by the same
  service without one of its models. This holds for the awaited call, for the call of the
  sweep, and for their common first part.\<close>

lemma unload_cases:
  obtains (unchanged)
      "unloadModelStart modelName serviceName e st = (fst (unloadModelStart modelName serviceName e st), st)"
      "snd (unloadModelInternal modelName serviceName e st) = st"
      "unloadModelDetached modelName serviceName e st = st"
      "\<not> success (fst (unloadModelStart modelName serviceName e st))"
  | (removed) service i where
      "map_get (services st) serviceName = Some service"
      "findIndex (\<lambda>model. mName model = modelName) (models service) = Some i"
      "i < length (models service)"
      "services (snd (unloadModelStart modelName serviceName e st)) =
         map_set serviceName (unloaded i service) (services st)"
proof (cases "map_get (services st) serviceName")
  case None
  then show ?thesis
    using unchanged by (simp add: unload_no_service start_no_service detached_no_service)
next
  case (Some service)
  note found = this
  show ?thesis
  proof (cases "findIndex (\<lambda>model. mName model = modelName) (models service)")
    case None
    with found show ?thesis
      using unchanged by (simp add: unload_no_model start_no_model detached_no_model)
  next
    case (Some i)
    with found show ?thesis
      using removed [of service i] findIndex_Some [OF Some] unload_found_services by blast
  qed
qed

lemma fetchSettled_fields [simp]:
  "vramReserveGb (fetchSettled answer st) = vramReserveGb st"
  "unloadTimeoutMinutes (fetchSettled answer st) = unloadTimeoutMinutes st"
  "totalVramGb (fetchSettled answer st) = totalVramGb st"
  "configFile (fetchSettled answer st) = configFile st"
  "inFlight (fetchSettled answer st) = inFlight st"
  by (simp_all add: fetchSettled_def split: fetch_result.split)

lemma start_config [simp]:
  "vramReserveGb (snd (unloadModelStart modelName serviceName e st)) = vramReserveGb st"
  "unloadTimeoutMinutes (snd (unloadModelStart modelName serviceName e st)) = unloadTimeoutMinutes st"
  "totalVramGb (snd (unloadModelStart modelName serviceName e st)) = totalVramGb st"
  "inFlight (snd (unloadModelStart modelName serviceName e st)) = inFlight st"
  by (simp_all add: unloadModelStart_def Let_def saveServicesToConfig_def split: option.split)

lemma unload_config [simp]:
  "vramReserveGb (snd (unloadModelInternal modelName serviceName e st)) = vramReserveGb st"
  "unloadTimeoutMinutes (snd (unloadModelInternal modelName serviceName e st)) = unloadTimeoutMinutes st"
  "totalVramGb (snd (unloadModelInternal modelName serviceName e st)) = totalVramGb st"
  by (simp_all add: unloadModelInternal_def split_beta)

lemma detached_config [simp]:
  "vramReserveGb (unloadModelDetached modelName serviceName e st) = vramReserveGb st"
  "unloadTimeoutMinutes (unloadModelDetached modelName serviceName e st) = unloadTimeoutMinutes st"
  "totalVramGb (unloadModelDetached modelName serviceName e st) = totalVramGb st"
  by (simp_all add: unloadModelDetached_def split_beta)

lemma settleFetches_fields [simp]:
  "services (settleFetches st) = services st"
  "vramReserveGb (settleFetches st) = vramReserveGb st"
  "unloadTimeoutMinutes (settleFetches st) = unloadTimeoutMinutes st"
  "totalVramGb (settleFetches st) = totalVramGb st"
  "configFile (settleFetches st) = configFile st"
proof -
  have "services (foldl (\<lambda>s answer. fetchSettled answer s) s as) = services s
      \<and> vramReserveGb (foldl (\<lambda>s answer. fetchSettled answer s) s as) = vramReserveGb s
      \<and> unloadTimeoutMinutes (foldl (\<lambda>s answer. fetchSettled answer s) s as) = unloadTimeoutMinutes s
      \<and> totalVramGb (foldl (\<lambda>s answer. fetchSettled answer s) s as) = totalVramGb s
      \<and> configFile (foldl (\<lambda>s answer. fetchSettled answer s) s as) = configFile s" for s as
    by (induction as arbitrary: s) simp_all
  then show "services (settleFetches st) = services st"
    "vramReserveGb (settleFetches st) = vramReserveGb st"
    "unloadTimeoutMinutes (settleFetches st) = unloadTimeoutMinutes st"
    "totalVramGb (settleFetches st) = totalVramGb st"
    "configFile (settleFetches st) = configFile st"
    by (simp_all add: settleFetches_def)
qed

lemma totalVramGb_updateTotalVram: "totalVramGb (updateTotalVram e st) = probedTotal (gpu e)"
  by (simp add: updateTotalVram_def probedTotal_def split: gpu_probe.split)

lemma updateTotalVram_fields [simp]:
  "services (updateTotalVram e st) = services st"
  "vramReserveGb (updateTotalVram e st) = vramReserveGb st"
  "unloadTimeoutMinutes (updateTotalVram e st) = unloadTimeoutMinutes st"
  "configFile (updateTotalVram e st) = configFile st"
  "effects (updateTotalVram e st) = effects st"
  "inFlight (updateTotalVram e st) = inFlight st"
  by (simp_all add: updateTotalVram_def split: gpu_probe.split)

text \<open>The requested total, the used total and the available amount as the code computes
  them.\<close>

definition requestedGb :: "ModelSpec list \<Rightarrow> rat" where
  "requestedGb ms = foldl (\<lambda>total model. fadd total (snd model)) 0 ms"

definition usedSum :: "VRAMManager \<Rightarrow> rat" where
  "usedSum st = foldl (\<lambda>total service. fadd total (usedVramGb service)) 0
                  (map_values (services st))"

definition availableGb :: "rat \<Rightarrow> VRAMManager \<Rightarrow> rat" where
  "availableGb T st = max 0 (fsub (fsub T (usedSum st)) (vramReserveGb st))"

lemma getVRAMStatus_available:
  "status_availableVramGb (fst (getVRAMStatus e st)) = availableGb (probedTotal (gpu e)) st"
  by (simp add: getVRAMStatus_def Let_def totalVramGb_updateTotalVram availableGb_def
      usedSum_def)

lemma getVRAMStatus_state: "snd (getVRAMStatus e st) = updateTotalVram e st"
  by (simp add: getVRAMStatus_def Let_def)

lemma getVRAMStatus_services [simp]: "services (snd (getVRAMStatus e st)) = services st"
  by (simp add: getVRAMStatus_state)

text \<open>The entry that a registration commits.\<close>

definition registered :: "string \<Rightarrow> string \<Rightarrow> ModelSpec list \<Rightarrow> int \<Rightarrow> ServiceInfo" where
  "registered serviceName serviceUrl ms t =
     \<lparr>sName = serviceName, url = serviceUrl,
      models = map (\<lambda>model. \<lparr>mName = fst model, vramUsageGb = snd model, lastUsed = t\<rparr>) ms,
      usedVramGb = requestedGb ms\<rparr>"

lemma decide_rejected:
  "status_availableVramGb status < requestedGb ms \<Longrightarrow>
   registerServiceDecide serviceName serviceUrl ms status e st =
     (\<lparr>reg_success = False,
       reg_message = NotEnoughVRAM (requestedGb ms) (status_availableVramGb status)\<rparr>, st)"
  by (simp add: registerServiceDecide_def Let_def requestedGb_def)

lemma decide_accepted:
  "requestedGb ms \<le> status_availableVramGb status \<Longrightarrow>
   registerServiceDecide serviceName serviceUrl ms status e st =
     (\<lparr>reg_success = True, reg_message = ServiceRegistered serviceName\<rparr>,
      saveServicesToConfig e
        (st\<lparr>services :=
           map_set serviceName (registered serviceName serviceUrl ms (now e)) (services st)\<rparr>))"
  by (simp add: registerServiceDecide_def Let_def requestedGb_def registered_def)

lemma decide_cases:
  obtains (rejected)
      "\<not> reg_success (fst (registerServiceDecide serviceName serviceUrl ms status e st))"
      "status_availableVramGb status < requestedGb ms"
      "registerServiceDecide serviceName serviceUrl ms status e st =
         (\<lparr>reg_success = False,
           reg_message = NotEnoughVRAM (requestedGb ms) (status_availableVramGb status)\<rparr>, st)"
  | (accepted)
      "reg_success (fst (registerServiceDecide serviceName serviceUrl ms status e st))"
      "requestedGb ms \<le> status_availableVramGb status"
      "snd (registerServiceDecide serviceName serviceUrl ms status e st) =
         saveServicesToConfig e (st\<lparr>services :=
           map_set serviceName (registered serviceName serviceUrl ms (now e)) (services st)\<rparr>)"
proof (cases "status_availableVramGb status < requestedGb ms")
  case True
  then show ?thesis using rejected by (simp add: decide_rejected)
next
  case False
  then show ?thesis using accepted by (simp add: decide_accepted)
qed

lemma registerService_decide:
  "registerService serviceName serviceUrl ms e st =
     registerServiceDecide serviceName serviceUrl ms (fst (getVRAMStatus e st)) e
       (updateTotalVram e st)"
  by (simp add: registerService_def split_beta getVRAMStatus_state)

lemma register_rejected:
  "availableGb (probedTotal (gpu e)) st < requestedGb ms \<Longrightarrow>
   registerService serviceName serviceUrl ms e st =
     (\<lparr>reg_success = False,
       reg_message = NotEnoughVRAM (requestedGb ms) (availableGb (probedTotal (gpu e)) st)\<rparr>,
      updateTotalVram e st)"
  by (simp add: registerService_decide decide_rejected getVRAMStatus_available)

lemma register_accepted:
  "requestedGb ms \<le> availableGb (probedTotal (gpu e)) st \<Longrightarrow>
   registerService serviceName serviceUrl ms e st =
     (\<lparr>reg_success = True, reg_message = ServiceRegistered serviceName\<rparr>,
      saveServicesToConfig e
        ((updateTotalVram e st)\<lparr>services :=
           map_set serviceName (registered serviceName serviceUrl ms (now e)) (services st)\<rparr>))"
  by (simp add: registerService_decide decide_accepted getVRAMStatus_available)

lemma register_cases:
  obtains (rejected) "\<not> reg_success (fst (registerService serviceName serviceUrl ms e st))"
      "availableGb (probedTotal (gpu e)) st < requestedGb ms"
      "snd (registerService serviceName serviceUrl ms e st) = updateTotalVram e st"
  | (accepted) "reg_success (fst (registerService serviceName serviceUrl ms e st))"
      "requestedGb ms \<le> availableGb (probedTotal (gpu e)) st"
      "snd (registerService serviceName serviceUrl ms e st) =
         saveServicesToConfig e ((updateTotalVram e st)\<lparr>services :=
           map_set serviceName (registered serviceName serviceUrl ms (now e)) (services st)\<rparr>)"
proof (cases "availableGb (probedTotal (gpu e)) st < requestedGb ms")
  case True
  then show ?thesis using rejected by (simp add: register_rejected)
next
  case False
  then show ?thesis using accepted by (simp add: register_accepted)
qed

text \<open>A service after a touch of its model at index \<open>i\<close>.\<close>

definition touched :: "nat \<Rightarrow> int \<Rightarrow> ServiceInfo \<Rightarrow> ServiceInfo" where
  "touched i t service =
     service\<lparr>models := (models service)[i := (models service ! i)\<lparr>lastUsed := t\<rparr>]\<rparr>"

lemma map_list_update_same: "f y = f (xs ! i) \<Longrightarrow> map f (xs[i := y]) = map f xs"
  by (cases "i < length xs") (simp_all add: map_update list_update_same_conv list_update_beyond)

lemma map_vramUsageGb_touched:
  "map vramUsageGb (models (touched i t service)) = map vramUsageGb (models service)"
  by (simp add: touched_def map_list_update_same)

lemma updateModelUsage_cases:
  obtains (unchanged) "snd (updateModelUsage modelName serviceName e st) = st"
  | (touched) service i where
      "map_get (services st) serviceName = Some service"
      "findIndex (\<lambda>model. mName model = modelName) (models service) = Some i"
      "snd (updateModelUsage modelName serviceName e st) =
         st\<lparr>services := map_set serviceName (touched i (now e) service) (services st)\<rparr>"
proof (cases "map_get (services st) serviceName")
  case None
  then show ?thesis using unchanged by (simp add: updateModelUsage_def)
next
  case (Some service)
  note found = this
  show ?thesis
  proof (cases "findIndex (\<lambda>model. mName model = modelName) (models service)")
    case None
    with found show ?thesis using unchanged by (simp add: updateModelUsage_def)
  next
    case (Some i)
    with found show ?thesis using touched [of service i]
      by (simp add: updateModelUsage_def touched_def)
  qed
qed

section \<open>Properties of the registry that the operations keep\<close>

text \<open>What every unload keeps, the sweep keeps.\<close>

lemma sweepModels_preserves:
  "(\<And>modelName serviceName st. I st \<Longrightarrow> I (unloadModelDetached modelName serviceName e st))
   \<Longrightarrow> I st \<Longrightarrow> I (sweepModels e p i st)"
proof (induction e p i st rule: sweepModels.induct)
  case (1 e p i st)
  note step = "1.prems"(1)
  show ?case
  proof (cases "p < length (services st) \<and> i < length (models (snd (services st ! p)))")
    case False
    with "1.prems"(2) show ?thesis by (subst sweepModels.simps) (auto simp: Let_def)
  next
    case True
    let ?service = "snd (services st ! p)"
    let ?model = "models ?service ! i"
    show ?thesis
    proof (cases "fdiv (fsub (of_int (now e)) (of_int (lastUsed ?model))) (1000 * 60)
                    > unloadTimeoutMinutes st")
      case stale: True
      have "I (unloadModelDetached (mName ?model) (sName ?service) e st)"
        using step "1.prems"(2) by blast
      then have "I (sweepModels e p (Suc i)
                   (unloadModelDetached (mName ?model) (sName ?service) e st))"
        using "1.IH"(1) [OF _ refl _ refl refl stale] True step by blast
      with True stale show ?thesis by (subst sweepModels.simps) (simp add: Let_def)
    next
      case fresh: False
      have "I (sweepModels e p (Suc i) st)"
        using "1.IH"(2) [OF _ refl _ refl refl fresh] True step "1.prems"(2) by blast
      with True fresh show ?thesis by (subst sweepModels.simps) (simp add: Let_def)
    qed
  qed
qed

lemma sweepServices_preserves:
  "(\<And>modelName serviceName st. I st \<Longrightarrow> I (unloadModelDetached modelName serviceName e st))
   \<Longrightarrow> I st \<Longrightarrow> I (sweepServices e p st)"
proof (induction e p st rule: sweepServices.induct)
  case (1 e p st)
  note step = "1.prems"(1)
  show ?case
  proof (cases "p < length (services st)")
    case False
    with "1.prems"(2) show ?thesis by (subst sweepServices.simps) simp
  next
    case True
    have "I (sweepModels e p 0 st)"
      using sweepModels_preserves [of I e st p 0] step "1.prems"(2) by blast
    then have "I (sweepServices e (Suc p) (sweepModels e p 0 st))"
      using "1.IH" [OF True] step by blast
    with True show ?thesis by (subst sweepServices.simps) simp
  qed
qed

text \<open>In particular a property of the Map that the first part of every unload keeps.\<close>

lemma autoUnload_services:
  assumes "\<And>modelName serviceName st.
             P (services st) \<Longrightarrow> P (services (snd (unloadModelStart modelName serviceName e st)))"
    and "P (services st)"
  shows "P (services (autoUnloadInactiveModels e st))"
proof -
  have "P (services (sweepServices e 0 st))"
    using sweepServices_preserves [of "\<lambda>s. P (services s)" e st 0] assms by simp
  then show ?thesis by (simp add: autoUnloadInactiveModels_def)
qed

lemma autoUnload_vramReserveGb [simp]:
  "vramReserveGb (autoUnloadInactiveModels e st) = vramReserveGb st"
proof -
  have "vramReserveGb (sweepServices e 0 st) = vramReserveGb st"
    using sweepServices_preserves [of "\<lambda>s. vramReserveGb s = vramReserveGb st" e st 0] by simp
  then show ?thesis by (simp add: autoUnloadInactiveModels_def)
qed

text \<open>A property of single services that an unload keeps for the service it shortens is
  kept for the whole registry.\<close>

lemma unload_list_all:
  assumes "list_all P (map_values (services st))"
    and "\<And>service i. P service \<Longrightarrow> i < length (models service) \<Longrightarrow> P (unloaded i service)"
  shows "list_all P (map_values (services (snd (unloadModelStart modelName serviceName e st))))"
proof (cases rule: unload_cases [of modelName serviceName e st])
  case unchanged
  from unchanged(1) have "snd (unloadModelStart modelName serviceName e st) = st"
    by (metis snd_conv)
  with assms(1) show ?thesis by simp
next
  case (removed service i)
  from removed(1) have "service \<in> set (map_values (services st))"
    by (simp add: map_get_def map_of_values)
  with assms(1) have "P service" by (simp add: list_all_iff)
  with assms removed show ?thesis
    by (simp add: list_all_values_map_set)
qed

lemma updateModelUsage_list_all:
  assumes "list_all P (map_values (services st))"
    and "\<And>service i t. P service \<Longrightarrow> P (touched i t service)"
  shows "list_all P (map_values (services (snd (updateModelUsage modelName serviceName e st))))"
proof (cases rule: updateModelUsage_cases [of modelName serviceName e st])
  case unchanged
  with assms(1) show ?thesis by simp
next
  case (touched service i)
  from touched(1) have "service \<in> set (map_values (services st))"
    by (simp add: map_get_def map_of_values)
  with assms(1) have "P service" by (simp add: list_all_iff)
  with assms touched show ?thesis
    by (simp add: list_all_values_map_set)
qed

lemma decide_list_all:
  assumes "list_all P (map_values (services st))"
    and "P (registered serviceName serviceUrl ms (now e))"
  shows "list_all P (map_values
           (services (snd (registerServiceDecide serviceName serviceUrl ms status e st))))"
  using assms
  by (cases rule: decide_cases [of serviceName serviceUrl ms status e st])
     (simp_all add: list_all_values_map_set)

lemma loadEntries_list_all:
  "list_all P (map_values m) \<Longrightarrow>
   list_all (\<lambda>entry. case entry of None \<Rightarrow> True | Some service \<Rightarrow> P (loadedService t service)) cfg
   \<Longrightarrow> list_all P (map_values (loadEntries t cfg m))"
  by (induction t cfg m rule: loadEntries.induct) (simp_all add: list_all_values_map_set)

subsection \<open>The exact sum of the held amounts\<close>

definition heldGb :: "ServiceInfo \<Rightarrow> rat" where
  "heldGb service = sum_list (map vramUsageGb (models service))"

lemma committedGb_heldGb: "committedGb st = sum_list (map heldGb (map_values (services st)))"
proof -
  have "sum_list (map vramUsageGb (concat (map models vs))) = sum_list (map heldGb vs)" for vs
    by (induction vs) (simp_all add: heldGb_def)
  then show ?thesis by (simp add: committedGb_def allModels_def)
qed

lemma heldGb_unloaded:
  "i < length (models service) \<Longrightarrow>
   heldGb (unloaded i service) = heldGb service - vramUsageGb (models service ! i)"
  by (simp add: heldGb_def unloaded_def sum_list_splice1)

lemma heldGb_touched: "heldGb (touched i t service) = heldGb service"
  by (simp add: heldGb_def map_vramUsageGb_touched)

lemma heldGb_registered: "heldGb (registered serviceName serviceUrl ms t) = sum_list (map snd ms)"
  by (simp add: heldGb_def registered_def comp_def)

text \<open>An unload takes exactly the freed amount out of the commitment.\<close>

lemma unload_committedGb:
  "committedGb (snd (unloadModelStart modelName serviceName e st)) =
   committedGb st - freedVramGb (fst (unloadModelStart modelName serviceName e st))"
proof (cases "map_get (services st) serviceName")
  case None
  then show ?thesis by (simp add: start_no_service)
next
  case (Some service)
  note found = this
  show ?thesis
  proof (cases "findIndex (\<lambda>model. mName model = modelName) (models service)")
    case None
    with found show ?thesis by (simp add: start_no_model)
  next
    case (Some i)
    from findIndex_Some [OF Some] have i: "i < length (models service)" by simp
    from found have m: "map_of (services st) serviceName = Some service"
      by (simp add: map_get_def)
    show ?thesis
      unfolding committedGb_heldGb unload_found_services [OF found Some]
        unload_found_result [OF found Some] sum_values_map_set
      using m by (simp add: heldGb_unloaded [OF i])
  qed
qed

lemma updateModelUsage_committedGb:
  "committedGb (snd (updateModelUsage modelName serviceName e st)) = committedGb st"
proof (cases rule: updateModelUsage_cases [of modelName serviceName e st])
  case unchanged
  then show ?thesis by simp
next
  case (touched service i)
  then show ?thesis
    by (simp add: committedGb_heldGb sum_values_map_set heldGb_touched map_get_def)
qed

section \<open>Amounts that doubles add and subtract exactly\<close>

text \<open>The multiples of \<open>2 powi - k\<close>: with \<open>k = 0\<close> the whole numbers of gigabytes, with
  \<open>k = 10\<close> the whole numbers of megabytes.\<close>

definition grid :: "nat \<Rightarrow> rat \<Rightarrow> bool" where
  "grid k x \<longleftrightarrow> of_int \<lfloor>x * 2 ^ k\<rfloor> = x * 2 ^ k"

lemma grid_iff: "grid k x \<longleftrightarrow> (\<exists>n::int. x = of_int n / 2 ^ k)"
proof
  assume "grid k x"
  then have "of_int \<lfloor>x * 2 ^ k\<rfloor> / 2 ^ k = x * 2 ^ k / 2 ^ k" by (simp only: grid_def)
  then have "x = of_int \<lfloor>x * 2 ^ k\<rfloor> / 2 ^ k" by simp
  then show "\<exists>n::int. x = of_int n / 2 ^ k" ..
next
  assume "\<exists>n::int. x = of_int n / 2 ^ k"
  then obtain n :: int where "x = of_int n / 2 ^ k" ..
  then show "grid k x" by (simp add: grid_def)
qed

lemma grid_0 [simp]: "grid k 0"
  by (simp add: grid_def)

lemma grid_add: "grid k a \<Longrightarrow> grid k b \<Longrightarrow> grid k (a + b)"
proof -
  assume "grid k a" "grid k b"
  then obtain n m :: int where "a = of_int n / 2 ^ k" "b = of_int m / 2 ^ k"
    by (auto simp: grid_iff)
  then have "a + b = of_int (n + m) / 2 ^ k" by (simp add: add_divide_distrib)
  then show ?thesis unfolding grid_iff ..
qed

lemma grid_diff: "grid k a \<Longrightarrow> grid k b \<Longrightarrow> grid k (a - b)"
proof -
  assume "grid k a" "grid k b"
  then obtain n m :: int where "a = of_int n / 2 ^ k" "b = of_int m / 2 ^ k"
    by (auto simp: grid_iff)
  then have "a - b = of_int (n - m) / 2 ^ k" by (simp add: diff_divide_distrib)
  then show ?thesis unfolding grid_iff ..
qed

lemma grid_sum_list: "list_all (grid k) xs \<Longrightarrow> grid k (sum_list xs)"
  by (induction xs) (simp_all add: grid_add)

text \<open>A multiple of \<open>2 powi - k\<close> with at most 53 binary digits is a double.\<close>

lemma rnd_exact:
  assumes "grid k x" and "\<bar>x\<bar> * 2 ^ k < 2 ^ 53" and "k \<le> subnormalBits"
  shows "rnd x = x"
proof -
  from assms(1) obtain n :: int where x: "x = of_int n / 2 ^ k" by (auto simp: grid_iff)
  have "\<bar>x\<bar> * 2 ^ k = of_int \<bar>n\<bar>" by (simp add: x abs_divide)
  with assms(2) have "(of_int \<bar>n\<bar> :: rat) < of_int (2 ^ 53)" by simp
  then have "\<bar>n\<bar> < 2 ^ 53" by (simp only: of_int_less_iff)
  from rnd_grid [OF this assms(3)] show ?thesis by (simp add: x)
qed

lemma fadd_exact:
  "grid k a \<Longrightarrow> grid k b \<Longrightarrow> \<bar>a + b\<bar> * 2 ^ k < 2 ^ 53 \<Longrightarrow> k \<le> subnormalBits \<Longrightarrow>
   fadd a b = a + b"
  unfolding fadd_def by (rule rnd_exact) (simp_all add: grid_add)

lemma fsub_exact:
  "grid k a \<Longrightarrow> grid k b \<Longrightarrow> \<bar>a - b\<bar> * 2 ^ k < 2 ^ 53 \<Longrightarrow> k \<le> subnormalBits \<Longrightarrow>
   fsub a b = a - b"
  unfolding fsub_def by (rule rnd_exact) (simp_all add: grid_diff)

lemma foldl_fadd_exact:
  assumes "k \<le> subnormalBits"
  shows "list_all (\<lambda>x. 0 \<le> f x \<and> grid k (f x)) xs \<Longrightarrow> 0 \<le> a \<Longrightarrow> grid k a \<Longrightarrow>
         (a + sum_list (map f xs)) * 2 ^ k < 2 ^ 53 \<Longrightarrow>
         foldl (\<lambda>total x. fadd total (f x)) a xs = a + sum_list (map f xs)"
proof (induction xs arbitrary: a)
  case Nil
  then show ?case by simp
next
  case (Cons x xs)
  from Cons.prems(1) have x: "0 \<le> f x" "grid k (f x)" and xs: "list_all (\<lambda>x. 0 \<le> f x \<and> grid k (f x)) xs"
    by simp_all
  from xs have rest: "0 \<le> sum_list (map f xs)"
    by (auto simp: list_all_iff intro!: sum_list_nonneg)
  have "(a + f x) * 2 ^ k \<le> (a + sum_list (map f (x # xs))) * 2 ^ k"
    by (rule mult_right_mono) (use rest in simp_all)
  from this Cons.prems(4) have "(a + f x) * 2 ^ k < 2 ^ 53" by (rule le_less_trans)
  moreover have "0 \<le> a + f x" using Cons.prems(2) x(1) by simp
  ultimately have "\<bar>a + f x\<bar> * 2 ^ k < 2 ^ 53" by simp
  from fadd_exact [OF Cons.prems(3) x(2) this assms] have step: "fadd a (f x) = a + f x" .
  have "foldl (\<lambda>total x. fadd total (f x)) (a + f x) xs = a + f x + sum_list (map f xs)"
    using xs \<open>0 \<le> a + f x\<close> grid_add [OF Cons.prems(3) x(2)] Cons.prems(4)
    by (intro Cons.IH) (simp_all add: add.assoc)
  with step show ?case by simp
qed

text \<open>A list of amounts that are non-negative multiples of \<open>2 powi - k\<close> and whose sum has
  at most 53 binary digits.\<close>

definition plainAmounts :: "nat \<Rightarrow> rat list \<Rightarrow> bool" where
  "plainAmounts k xs \<longleftrightarrow> list_all (\<lambda>x. 0 \<le> x \<and> grid k x) xs \<and> sum_list xs * 2 ^ k < 2 ^ 53"

lemma plainAmounts_fold:
  assumes "plainAmounts k (map f xs)" and "k \<le> subnormalBits"
  shows "foldl (\<lambda>total x. fadd total (f x)) 0 xs = sum_list (map f xs)"
  using foldl_fadd_exact [OF assms(2), of f xs 0] assms(1)
  by (simp add: plainAmounts_def list_all_iff)

lemma plainAmounts_nonneg: "plainAmounts k xs \<Longrightarrow> 0 \<le> sum_list xs"
  by (auto simp: plainAmounts_def list_all_iff intro!: sum_list_nonneg)

text \<open>A service that holds such amounts and whose cached usage is their sum.\<close>

definition plainService :: "nat \<Rightarrow> ServiceInfo \<Rightarrow> bool" where
  "plainService k service \<longleftrightarrow>
     plainAmounts k (map vramUsageGb (models service)) \<and> usedVramGb service = heldGb service"

lemma plainService_nonneg: "plainService k service \<Longrightarrow> 0 \<le> heldGb service"
  using plainAmounts_nonneg [of k "map vramUsageGb (models service)"]
  by (simp add: plainService_def heldGb_def)

lemma plainService_grid: "plainService k service \<Longrightarrow> grid k (heldGb service)"
  unfolding plainService_def plainAmounts_def heldGb_def
  by (intro grid_sum_list) (auto simp: list_all_iff)

lemma plainService_bound: "plainService k service \<Longrightarrow> heldGb service * 2 ^ k < 2 ^ 53"
  by (simp add: plainService_def plainAmounts_def heldGb_def)

lemma requestedGb_plain:
  "plainAmounts k (map snd ms) \<Longrightarrow> k \<le> subnormalBits \<Longrightarrow> requestedGb ms = sum_list (map snd ms)"
  using plainAmounts_fold [of k snd ms] by (simp add: requestedGb_def)

lemma plainService_registered:
  assumes "plainAmounts k (map snd ms)" and "k \<le> subnormalBits"
  shows "plainService k (registered serviceName serviceUrl ms t)"
proof -
  have "usedVramGb (registered serviceName serviceUrl ms t) = requestedGb ms"
    and "map vramUsageGb (models (registered serviceName serviceUrl ms t)) = map snd ms"
    by (simp_all add: registered_def comp_def)
  with assms requestedGb_plain [OF assms] show ?thesis
    by (simp add: plainService_def heldGb_def)
qed

lemma plainService_loadedService:
  "plainAmounts k (map snd (snd (snd service))) \<Longrightarrow> k \<le> subnormalBits \<Longrightarrow>
   plainService k (loadedService t service)"
  using plainAmounts_fold [of k snd "snd (snd service)"]
  by (simp add: plainService_def heldGb_def loadedService_def comp_def)

lemma plainService_touched: "plainService k service \<Longrightarrow> plainService k (touched i t service)"
  by (simp add: plainService_def heldGb_touched map_vramUsageGb_touched)
     (simp add: touched_def)

lemma plainService_unloaded:
  assumes "plainService k service" and "i < length (models service)" and "k \<le> subnormalBits"
  shows "plainService k (unloaded i service)"
proof -
  let ?x = "vramUsageGb (models service ! i)"
  from assms(1) have all: "list_all (\<lambda>x. 0 \<le> x \<and> grid k x) (map vramUsageGb (models service))"
    and bound: "heldGb service * 2 ^ k < 2 ^ 53"
    and cached: "usedVramGb service = heldGb service"
    by (simp_all add: plainService_def plainAmounts_def heldGb_def)
  from all assms(2) have x: "0 \<le> ?x" "grid k ?x"
    by (simp_all add: list_all_length)
  have all': "list_all (\<lambda>x. 0 \<le> x \<and> grid k x) (map vramUsageGb (splice1 i (models service)))"
    using all set_splice1 [of i "models service"] by (auto simp: list_all_iff)
  then have rest: "0 \<le> heldGb service - ?x"
    using sum_list_splice1 [OF assms(2), of vramUsageGb]
    by (auto simp: heldGb_def list_all_iff intro!: sum_list_nonneg
        simp flip: sum_list_splice1 [OF assms(2), of vramUsageGb])
  have "(heldGb service - ?x) * 2 ^ k \<le> heldGb service * 2 ^ k"
    by (rule mult_right_mono) (use x(1) in simp_all)
  from this bound have "(heldGb service - ?x) * 2 ^ k < 2 ^ 53" by (rule le_less_trans)
  with rest have small: "\<bar>heldGb service - ?x\<bar> * 2 ^ k < 2 ^ 53" by simp
  from fsub_exact [OF plainService_grid [OF assms(1)] x(2) small assms(3)]
  have "fsub (usedVramGb service) ?x = heldGb (unloaded i service)"
    by (simp add: cached heldGb_unloaded [OF assms(2)])
  moreover have "plainAmounts k (map vramUsageGb (models (unloaded i service)))"
    using all' small rest
    by (simp add: plainAmounts_def unloaded_def sum_list_splice1 [OF assms(2)] heldGb_def)
  ultimately show ?thesis by (simp add: plainService_def) (simp add: unloaded_def)
qed

section \<open>Properties of the registry that every schedule keeps\<close>

text \<open>The model list that a step registers.\<close>

fun stepSpecs :: "step \<Rightarrow> ModelSpec list" where
  "stepSpecs (Call (RegisterService serviceName serviceUrl ms) e) = ms"
| "stepSpecs (RegisterDecide r serviceName serviceUrl ms e) = ms"
| "stepSpecs _ = []"

text \<open>A property of the Map that the first part of an unload, a touch and the second part
  of a registration keep is kept by every step, and so by every schedule.\<close>

lemma stepExec_services:
  assumes U: "\<And>modelName serviceName e st.
        P (services st) \<Longrightarrow> P (services (snd (unloadModelStart modelName serviceName e st)))"
    and T: "\<And>modelName serviceName e st.
        P (services st) \<Longrightarrow> P (services (snd (updateModelUsage modelName serviceName e st)))"
    and R: "\<And>serviceName serviceUrl status e st.
        P (services st) \<Longrightarrow>
        P (services (snd (registerServiceDecide serviceName serviceUrl (stepSpecs x) status e st)))"
    and init: "P (services (snd s))"
  shows "P (services (snd (stepExec x s)))"
proof -
  obtain pending st where s: "s = (pending, st)" by (cases s)
  with init have st: "P (services st)" by simp
  show ?thesis
  proof (cases x)
    case (Call c e)
    show ?thesis
    proof (cases c)
      case (RegisterService serviceName serviceUrl ms)
      have "P (services (updateTotalVram e st))" using st by simp
      from R [OF this] show ?thesis
        by (simp add: s Call RegisterService registerService_decide)
    next
      case (UnloadModel modelName serviceName)
      with U [OF st] show ?thesis by (simp add: s Call unloadModel_def)
    next
      case (UpdateModelUsage modelName serviceName)
      with T [OF st] show ?thesis by (simp add: s Call)
    next
      case AutoUnloadInactiveModels
      have "P (services (autoUnloadInactiveModels e st))"
        by (rule autoUnload_services [of P e st]) (use U st in blast)+
      then show ?thesis by (simp add: s Call AutoUnloadInactiveModels)
    next
      case GetVRAMStatus
      with st show ?thesis by (simp add: s Call)
    qed
  next
    case (RegisterStatus r e)
    with st show ?thesis by (simp add: s)
  next
    case (RegisterDecide r serviceName serviceUrl ms e)
    show ?thesis
    proof (cases "pending r")
      case None
      with st show ?thesis by (simp add: s RegisterDecide)
    next
      case (Some status)
      with R [OF st] show ?thesis by (simp add: s RegisterDecide)
    qed
  qed
qed

lemma runSteps_services:
  assumes U: "\<And>modelName serviceName e st.
        P (services st) \<Longrightarrow> P (services (snd (unloadModelStart modelName serviceName e st)))"
    and T: "\<And>modelName serviceName e st.
        P (services st) \<Longrightarrow> P (services (snd (updateModelUsage modelName serviceName e st)))"
    and R: "\<And>serviceName serviceUrl ms status e st.
        Q ms \<Longrightarrow> P (services st) \<Longrightarrow>
        P (services (snd (registerServiceDecide serviceName serviceUrl ms status e st)))"
  shows "list_all (\<lambda>x. Q (stepSpecs x)) steps \<Longrightarrow> P (services (snd s)) \<Longrightarrow>
         P (services (snd (runSteps steps s)))"
proof (induction steps arbitrary: s)
  case Nil
  then show ?case by simp
next
  case (Cons x xs)
  from Cons.prems(1) have x: "Q (stepSpecs x)" and xs: "list_all (\<lambda>x. Q (stepSpecs x)) xs"
    by simp_all
  have "P (services (snd (stepExec x s)))"
    by (rule stepExec_services [of P]) (use U T R x Cons.prems(2) in blast)+
  from Cons.IH [OF xs this] show ?case by simp
qed

text \<open>A run of whole calls is a schedule.\<close>

lemma run_runSteps: "run cs st = snd (runSteps (map (\<lambda>(c, e). Call c e) cs) (pending, st))"
proof (induction cs arbitrary: st)
  case Nil
  show ?case by simp
next
  case (Cons a cs)
  obtain c e where a: "a = (c, e)" by (cases a)
  from Cons.IH [of "exec c e st"] show ?case by (simp add: a)
qed

section \<open>Concrete runs\<close>

text \<open>The defining equations that evaluate a run on concrete arguments.\<close>

lemmas call_defs =
  registerService_def registerServiceDecide_def getVRAMStatus_def updateTotalVram_def
  map_values_def saveServicesToConfig_def servicesConfigOf_def unloadModel_def
  unloadModelInternal_def unloadModelStart_def unloadModelDetached_def fetchSettled_def
  settleFetches_def updateModelUsage_def map_get_def splice1_def emptyManager_def
  newVRAMManager_def loadServicesFromConfig_def loadedService_def
  autoUnloadInactiveModels_def sweepServices.simps sweepModels.simps Let_def

text \<open>The same with the arithmetic of doubles, for runs on small whole numbers.\<close>

lemmas run_defs = call_defs fadd_def fsub_def fdiv_def

text \<open>An environment with one 64 GB controller, a writable disk and an answering service.\<close>

definition env64 :: "int \<Rightarrow> env" where
  "env64 t = \<lparr>now = t, gpu = Controllers [Some 65536], fsWritable = True, fetchResult = FetchOk\<rparr>"

text \<open>Two services hold 20 and 30 GB on a 64 GB card with a reserve of 4; 10 GB are
  available.\<close>

definition twoServices :: VRAMManager where
  "twoServices =
     run [(RegisterService ''svc-a'' ''http://a'' [(''a1'', 20)], env64 0),
          (RegisterService ''svc-b'' ''http://b'' [(''b1'', 30)], env64 1)]
       (emptyManager 60 4 True 30 Absent)"

text \<open>One service with one model of 10 GB.\<close>

definition oneModel :: VRAMManager where
  "oneModel =
     run [(RegisterService ''svc'' ''http://svc'' [(''m1'', 10)], env64 0)]
       (emptyManager 60 4 True 30 Absent)"

text \<open>One service with two models, of 10 and 5 GB.\<close>

definition twoModels :: VRAMManager where
  "twoModels =
     run [(RegisterService ''svc'' ''http://svc'' [(''m1'', 10), (''m2'', 5)], env64 0)]
       (emptyManager 60 4 True 30 Absent)"

definition svcTwo :: ServiceInfo where
  "svcTwo = \<lparr>sName = ''svc'', url = ''http://svc'',
      models = [\<lparr>mName = ''m1'', vramUsageGb = 10, lastUsed = 0\<rparr>,
                \<lparr>mName = ''m2'', vramUsageGb = 5, lastUsed = 0\<rparr>],
      usedVramGb = 15\<rparr>"

lemma twoModels_svc: "map_get (services twoModels) ''svc'' = Some svcTwo"
  by (simp add: twoModels_def svcTwo_def env64_def run_defs)

section \<open>The claims\<close>

subsection \<open>C2: admission\<close>

lemma map_get_map_set_other:
  "k' \<noteq> k \<Longrightarrow> map_get (map_set k v m) k' = map_get m k'"
  by (simp add: map_get_def map_of_map_set)

lemma map_get_map_set_same: "map_get (map_set k v m) k = Some v"
  by (simp add: map_get_def map_of_map_set)




subsection \<open>C6, C7 and C8: unloading a model\<close>

lemma map_set_same_image:
  "map_of m k = Some v \<Longrightarrow> g (k, v') = g (k, v) \<Longrightarrow> map g (map_set k v' m) = map g m"
  by (induction m) auto

lemma start_found_effects:
  "map_get (services st) serviceName = Some service \<Longrightarrow>
   findIndex (\<lambda>model. mName model = modelName) (models service) = Some i \<Longrightarrow>
   effects (snd (unloadModelStart modelName serviceName e st)) =
     effects st
     @ (if fsWritable e
        then [ConfigSaved (servicesConfigOf (map_set serviceName (unloaded i service) (services st)))]
        else [])
     @ [UnloadPosted (url service @ ''/models/unload'') modelName]"
  by (simp add: start_found saveServicesToConfig_def)

lemma start_found_configFile:
  "map_get (services st) serviceName = Some service \<Longrightarrow>
   findIndex (\<lambda>model. mName model = modelName) (models service) = Some i \<Longrightarrow>
   configFile (snd (unloadModelStart modelName serviceName e st)) =
     (if fsWritable e
      then Stored (map Some (servicesConfigOf (map_set serviceName (unloaded i service) (services st))))
      else configFile st)"
  by (simp add: start_found saveServicesToConfig_def)

lemma unload_found_state:
  "map_get (services st) serviceName = Some service \<Longrightarrow>
   findIndex (\<lambda>model. mName model = modelName) (models service) = Some i \<Longrightarrow>
   snd (unloadModelInternal modelName serviceName e st) =
     fetchSettled (fetchResult e) (snd (unloadModelStart modelName serviceName e st))"
  by (simp add: unloadModelInternal_def start_found)

lemma detached_found_state:
  "map_get (services st) serviceName = Some service \<Longrightarrow>
   findIndex (\<lambda>model. mName model = modelName) (models service) = Some i \<Longrightarrow>
   unloadModelDetached modelName serviceName e st =
     (snd (unloadModelStart modelName serviceName e st))
       \<lparr>inFlight := inFlight st @ [fetchResult e]\<rparr>"
  by (simp add: unloadModelDetached_def start_found saveServicesToConfig_def)

lemma effects_fetchSettled:
  "effects (fetchSettled answer st) =
     effects st @ (case answer of FetchOk \<Rightarrow> [] | FetchNotOk \<Rightarrow> [Warned] | FetchThrows \<Rightarrow> [Warned])"
  by (simp add: fetchSettled_def split: fetch_result.split)

lemma unload_success_found:
  assumes "success (fst (unloadModelInternal modelName serviceName e st))"
  obtains service i where
    "map_get (services st) serviceName = Some service"
    "findIndex (\<lambda>model. mName model = modelName) (models service) = Some i"
proof (cases "map_get (services st) serviceName")
  case None
  with assms show ?thesis by (simp add: unload_no_service)
next
  case (Some service)
  note found = this
  show ?thesis
  proof (cases "findIndex (\<lambda>model. mName model = modelName) (models service)")
    case None
    with found assms show ?thesis by (simp add: unload_no_model)
  next
    case (Some i)
    with found that show ?thesis by blast
  qed
qed

text \<open>C6 as stated (an evicted lease stays in the registry with its name and amount,
  flagged as not loaded) is false here: after the unload the registry holds no model
  record at all.\<close>

theorem eviction_retains_record_counterexample:
  "allModels oneModel = [\<lparr>mName = ''m1'', vramUsageGb = 10, lastUsed = 0\<rparr>]
   \<and> success (fst (unloadModel ''m1'' ''svc'' (env64 1) oneModel))
   \<and> allModels (snd (unloadModel ''m1'' ''svc'' (env64 1) oneModel)) = []"
  by (simp add: oneModel_def env64_def run_defs allModels_def)

text \<open>C6, as amended. \<open>ModelInfo\<close> has no loaded flag: a successful unload removes
  the record of the first model of that name from the model list of its service and takes
  its amount off the cached usage, by a subtraction of doubles. The other models of the
  service stay, in their order; the entry of the service itself stays in the registry with
  its name and url, also when its model list becomes empty; and no other service is
  touched.\<close>

theorem eviction_removes_record_keeps_service:
  assumes "success (fst (unloadModelInternal modelName serviceName e st))"
  shows "getServiceList (snd (unloadModelInternal modelName serviceName e st)) = getServiceList st
    \<and> map fst (services (snd (unloadModelInternal modelName serviceName e st)))
        = map fst (services st)
    \<and> (\<exists>service i.
          map_get (services st) serviceName = Some service
          \<and> findIndex (\<lambda>model. mName model = modelName) (models service) = Some i
          \<and> map_get (services (snd (unloadModelInternal modelName serviceName e st))) serviceName
              = Some (service\<lparr>models := splice1 i (models service),
                             usedVramGb := fsub (usedVramGb service)
                                             (vramUsageGb (models service ! i))\<rparr>))
    \<and> (\<forall>other. other \<noteq> serviceName \<longrightarrow>
          map_get (services (snd (unloadModelInternal modelName serviceName e st))) other
            = map_get (services st) other)"
proof -
  from assms obtain service i where
    found: "map_get (services st) serviceName = Some service"
    and ix: "findIndex (\<lambda>model. mName model = modelName) (models service) = Some i"
    by (rule unload_success_found)
  have sv: "services (snd (unloadModelInternal modelName serviceName e st))
      = map_set serviceName (unloaded i service) (services st)"
    using unload_found_services [OF found ix, of e] by simp
  from found have m: "map_of (services st) serviceName = Some service"
    by (simp add: map_get_def)
  have 1: "getServiceList (snd (unloadModelInternal modelName serviceName e st)) = getServiceList st"
    unfolding getServiceList_def map_values_def map_map sv
    by (rule map_set_same_image [OF m]) (simp add: unloaded_def)
  have 2: "map fst (services (snd (unloadModelInternal modelName serviceName e st)))
        = map fst (services st)"
    unfolding sv by (rule map_set_same_image [OF m]) simp
  have 3: "map_get (services (snd (unloadModelInternal modelName serviceName e st))) serviceName
              = Some (service\<lparr>models := splice1 i (models service),
                             usedVramGb := fsub (usedVramGb service)
                                             (vramUsageGb (models service ! i))\<rparr>)"
    unfolding sv by (simp add: map_get_map_set_same unloaded_def)
  have 4: "\<forall>other. other \<noteq> serviceName \<longrightarrow>
          map_get (services (snd (unloadModelInternal modelName serviceName e st))) other
            = map_get (services st) other"
    unfolding sv by (simp add: map_get_map_set_other)
  from 1 2 found ix 3 4 show ?thesis by blast
qed

theorem eviction_removes_record_keeps_service_witness:
  "success (fst (unloadModelInternal ''m1'' ''svc'' (env64 1) twoModels))
   \<and> getServiceList (snd (unloadModelInternal ''m1'' ''svc'' (env64 1) twoModels))
       = getServiceList twoModels
   \<and> getServiceList twoModels = [(''svc'', ''http://svc'')]
   \<and> map_get (services (snd (unloadModelInternal ''m1'' ''svc'' (env64 1) twoModels))) ''svc''
       = Some \<lparr>sName = ''svc'', url = ''http://svc'',
               models = [\<lparr>mName = ''m2'', vramUsageGb = 5, lastUsed = 0\<rparr>], usedVramGb = 5\<rparr>"
proof -
  have h: "success (fst (unloadModelInternal ''m1'' ''svc'' (env64 1) twoModels))"
    by (simp add: twoModels_def env64_def run_defs)
  have l: "getServiceList twoModels = [(''svc'', ''http://svc'')]"
    by (simp add: getServiceList_def twoModels_def env64_def run_defs)
  have g: "map_get (services (snd (unloadModelInternal ''m1'' ''svc'' (env64 1) twoModels))) ''svc''
       = Some \<lparr>sName = ''svc'', url = ''http://svc'',
               models = [\<lparr>mName = ''m2'', vramUsageGb = 5, lastUsed = 0\<rparr>], usedVramGb = 5\<rparr>"
    by (simp add: twoModels_def env64_def run_defs)
  from eviction_removes_record_keeps_service [OF h]
  have "getServiceList (snd (unloadModelInternal ''m1'' ''svc'' (env64 1) twoModels))
       = getServiceList twoModels"
    by (rule conjunct1)
  with h l g show ?thesis by (intro conjI)
qed

text \<open>C7. For every eviction, that is every run of \<open>unloadModelStart\<close> that finds the
  service and the model, be it awaited (\<open>unloadModelInternal\<close>) or started by the
  idle sweep (\<open>unloadModelDetached\<close>): before the request to the service leaves, the
  model is out of the registry, the freed amount is off the commitment, and the config
  file has been written and holds the registry as it is after the removal (the file stays
  as it was only when it cannot be written). The effects are, in this order, that save,
  the POST to the service's unload endpoint and, once the answer is there, a warning when
  it is not ok. Whatever the answer is (ok, not ok, an exception), the call returns
  success with the freed amount and leaves the same registry and the same file: a failed
  callback rolls nothing back. The sweep's call leaves the same registry and file as the
  awaited one, with the answer still in flight.\<close>

theorem commit_before_notify:
  assumes "map_get (services st) serviceName = Some service"
    and "findIndex (\<lambda>model. mName model = modelName) (models service) = Some i"
  shows "fst (unloadModelInternal modelName serviceName e st)
           = \<lparr>success = True, freedVramGb = vramUsageGb (models service ! i),
              message = ModelUnloaded modelName\<rparr>
    \<and> map_get (services (snd (unloadModelInternal modelName serviceName e st))) serviceName
        = Some (service\<lparr>models := splice1 i (models service),
                       usedVramGb := fsub (usedVramGb service) (vramUsageGb (models service ! i))\<rparr>)
    \<and> committedGb (snd (unloadModelInternal modelName serviceName e st))
        = committedGb st - vramUsageGb (models service ! i)
    \<and> configFile (snd (unloadModelInternal modelName serviceName e st))
        = (if fsWritable e
           then Stored (map Some (servicesConfigOf
                  (map_set serviceName
                     (service\<lparr>models := splice1 i (models service),
                              usedVramGb := fsub (usedVramGb service)
                                              (vramUsageGb (models service ! i))\<rparr>)
                     (services st))))
           else configFile st)
    \<and> effects (snd (unloadModelInternal modelName serviceName e st))
        = effects st
          @ (if fsWritable e
             then [ConfigSaved (servicesConfigOf
                     (services (snd (unloadModelInternal modelName serviceName e st))))]
             else [])
          @ [UnloadPosted (url service @ ''/models/unload'') modelName]
          @ (case fetchResult e of FetchOk \<Rightarrow> [] | FetchNotOk \<Rightarrow> [Warned]
             | FetchThrows \<Rightarrow> [Warned])
    \<and> (\<forall>answer.
          fst (unloadModelInternal modelName serviceName (e\<lparr>fetchResult := answer\<rparr>) st)
            = fst (unloadModelInternal modelName serviceName e st)
          \<and> services (snd (unloadModelInternal modelName serviceName (e\<lparr>fetchResult := answer\<rparr>) st))
            = services (snd (unloadModelInternal modelName serviceName e st))
          \<and> configFile (snd (unloadModelInternal modelName serviceName (e\<lparr>fetchResult := answer\<rparr>) st))
            = configFile (snd (unloadModelInternal modelName serviceName e st)))
    \<and> services (unloadModelDetached modelName serviceName e st)
        = services (snd (unloadModelInternal modelName serviceName e st))
    \<and> configFile (unloadModelDetached modelName serviceName e st)
        = configFile (snd (unloadModelInternal modelName serviceName e st))
    \<and> effects (unloadModelDetached modelName serviceName e st)
        = effects st
          @ (if fsWritable e
             then [ConfigSaved (servicesConfigOf
                     (services (snd (unloadModelInternal modelName serviceName e st))))]
             else [])
          @ [UnloadPosted (url service @ ''/models/unload'') modelName]
    \<and> inFlight (unloadModelDetached modelName serviceName e st) = inFlight st @ [fetchResult e]"
proof -
  note st = unload_found_state [OF assms]
  note dt = detached_found_state [OF assms]
  note sv = unload_found_services [OF assms]
  note rs = unload_found_result [OF assms]
  note ef = start_found_effects [OF assms]
  note cf = start_found_configFile [OF assms]
  have 1: "fst (unloadModelInternal modelName serviceName e st)
           = \<lparr>success = True, freedVramGb = vramUsageGb (models service ! i),
              message = ModelUnloaded modelName\<rparr>"
    by (simp add: rs)
  have 2: "map_get (services (snd (unloadModelInternal modelName serviceName e st))) serviceName
        = Some (service\<lparr>models := splice1 i (models service),
                       usedVramGb := fsub (usedVramGb service) (vramUsageGb (models service ! i))\<rparr>)"
    by (simp add: sv map_get_map_set_same unloaded_def)
  have 3: "committedGb (snd (unloadModelInternal modelName serviceName e st))
        = committedGb st - vramUsageGb (models service ! i)"
  proof -
    have "committedGb (snd (unloadModelInternal modelName serviceName e st))
        = committedGb (snd (unloadModelStart modelName serviceName e st))"
      by (simp add: committedGb_def allModels_def)
    then show ?thesis
      using unload_committedGb [of modelName serviceName e st] by (simp add: rs)
  qed
  have 4: "configFile (snd (unloadModelInternal modelName serviceName e st))
        = (if fsWritable e
           then Stored (map Some (servicesConfigOf
                  (map_set serviceName
                     (service\<lparr>models := splice1 i (models service),
                              usedVramGb := fsub (usedVramGb service)
                                              (vramUsageGb (models service ! i))\<rparr>)
                     (services st))))
           else configFile st)"
    by (simp add: st cf unloaded_def)
  have 5: "effects (snd (unloadModelInternal modelName serviceName e st))
        = effects st
          @ (if fsWritable e
             then [ConfigSaved (servicesConfigOf
                     (services (snd (unloadModelInternal modelName serviceName e st))))]
             else [])
          @ [UnloadPosted (url service @ ''/models/unload'') modelName]
          @ (case fetchResult e of FetchOk \<Rightarrow> [] | FetchNotOk \<Rightarrow> [Warned]
             | FetchThrows \<Rightarrow> [Warned])"
    by (simp add: st effects_fetchSettled ef sv)
  have 6: "\<forall>answer.
          fst (unloadModelInternal modelName serviceName (e\<lparr>fetchResult := answer\<rparr>) st)
            = fst (unloadModelInternal modelName serviceName e st)
          \<and> services (snd (unloadModelInternal modelName serviceName (e\<lparr>fetchResult := answer\<rparr>) st))
            = services (snd (unloadModelInternal modelName serviceName e st))
          \<and> configFile (snd (unloadModelInternal modelName serviceName (e\<lparr>fetchResult := answer\<rparr>) st))
            = configFile (snd (unloadModelInternal modelName serviceName e st))"
    by (simp add: rs sv st cf)
  have 7: "services (unloadModelDetached modelName serviceName e st)
        = services (snd (unloadModelInternal modelName serviceName e st))"
    by simp
  have 8: "configFile (unloadModelDetached modelName serviceName e st)
        = configFile (snd (unloadModelInternal modelName serviceName e st))"
    by (simp add: st dt)
  have 9: "effects (unloadModelDetached modelName serviceName e st)
        = effects st
          @ (if fsWritable e
             then [ConfigSaved (servicesConfigOf
                     (services (snd (unloadModelInternal modelName serviceName e st))))]
             else [])
          @ [UnloadPosted (url service @ ''/models/unload'') modelName]"
    by (simp add: dt ef sv)
  have 10: "inFlight (unloadModelDetached modelName serviceName e st) = inFlight st @ [fetchResult e]"
    by (simp add: dt)
  from 1 2 3 4 5 6 7 8 9 10 show ?thesis by (intro conjI)
qed

theorem commit_before_notify_witness:
  "map_get (services twoModels) ''svc'' = Some svcTwo
   \<and> findIndex (\<lambda>model. mName model = ''m1'') (models svcTwo) = Some 0
   \<and> fst (unloadModelInternal ''m1'' ''svc'' ((env64 1)\<lparr>fetchResult := FetchThrows\<rparr>) twoModels)
       = \<lparr>success = True, freedVramGb = 10, message = ModelUnloaded ''m1''\<rparr>
   \<and> committedGb (snd (unloadModelInternal ''m1'' ''svc'' ((env64 1)\<lparr>fetchResult := FetchThrows\<rparr>)
         twoModels)) = committedGb twoModels - 10
   \<and> configFile twoModels = Stored [Some (''svc'', ''http://svc'', [(''m1'', 10), (''m2'', 5)])]
   \<and> configFile (snd (unloadModelInternal ''m1'' ''svc'' ((env64 1)\<lparr>fetchResult := FetchThrows\<rparr>)
         twoModels))
       = Stored [Some (''svc'', ''http://svc'', [(''m2'', 5)])]
   \<and> effects (snd (unloadModelInternal ''m1'' ''svc'' ((env64 1)\<lparr>fetchResult := FetchThrows\<rparr>)
         twoModels))
       = [ConfigSaved [(''svc'', ''http://svc'', [(''m1'', 10), (''m2'', 5)])],
          ConfigSaved [(''svc'', ''http://svc'', [(''m2'', 5)])],
          UnloadPosted ''http://svc/models/unload'' ''m1'',
          Warned]"
proof -
  have ix: "findIndex (\<lambda>model. mName model = ''m1'') (models svcTwo) = Some 0"
    by (simp add: svcTwo_def)
  note inst = commit_before_notify [OF twoModels_svc ix, of "(env64 1)\<lparr>fetchResult := FetchThrows\<rparr>"]
  from inst have 1: "fst (unloadModelInternal ''m1'' ''svc'' ((env64 1)\<lparr>fetchResult := FetchThrows\<rparr>) twoModels)
       = \<lparr>success = True, freedVramGb = 10, message = ModelUnloaded ''m1''\<rparr>"
    by (simp add: svcTwo_def)
  from inst have 2: "committedGb (snd (unloadModelInternal ''m1'' ''svc''
      ((env64 1)\<lparr>fetchResult := FetchThrows\<rparr>) twoModels)) = committedGb twoModels - 10"
    by (simp add: svcTwo_def)
  have 0: "configFile twoModels = Stored [Some (''svc'', ''http://svc'', [(''m1'', 10), (''m2'', 5)])]"
    by (simp add: twoModels_def env64_def run_defs)
  have 3: "configFile (snd (unloadModelInternal ''m1'' ''svc'' ((env64 1)\<lparr>fetchResult := FetchThrows\<rparr>)
         twoModels))
       = Stored [Some (''svc'', ''http://svc'', [(''m2'', 5)])]"
    by (simp add: twoModels_def env64_def run_defs)
  have 4: "effects (snd (unloadModelInternal ''m1'' ''svc'' ((env64 1)\<lparr>fetchResult := FetchThrows\<rparr>)
         twoModels))
       = [ConfigSaved [(''svc'', ''http://svc'', [(''m1'', 10), (''m2'', 5)])],
          ConfigSaved [(''svc'', ''http://svc'', [(''m2'', 5)])],
          UnloadPosted ''http://svc/models/unload'' ''m1'',
          Warned]"
    by (simp add: twoModels_def env64_def run_defs)
  from twoModels_svc ix 1 2 0 3 4 show ?thesis by (intro conjI)
qed

lemma distinct_splice1_absent:
  assumes "distinct (map f xs)" and "i < length xs"
  shows "\<forall>x \<in> set (splice1 i xs). f x \<noteq> f (xs ! i)"
proof -
  have "xs = take i xs @ xs ! i # drop (Suc i) xs"
    using assms(2) by (simp add: id_take_nth_drop)
  then have "distinct (map f (take i xs @ xs ! i # drop (Suc i) xs))"
    using assms(1) by simp
  then show ?thesis by (auto simp: splice1_def intro: rev_image_eqI)
qed

text \<open>C8 as stated (releasing what is already released returns success with a freed
  amount of zero) is false here: the first unload succeeds and frees 10 GB, the second
  one reports failure.\<close>

theorem double_release_counterexample:
  "success (fst (unloadModel ''m1'' ''svc'' (env64 1) oneModel))
   \<and> freedVramGb (fst (unloadModel ''m1'' ''svc'' (env64 1) oneModel)) = 10
   \<and> \<not> success (fst (unloadModel ''m1'' ''svc'' (env64 2)
                        (snd (unloadModel ''m1'' ''svc'' (env64 1) oneModel))))"
  by (simp add: oneModel_def env64_def run_defs)

text \<open>C8, as amended. When the models of a service have distinct names, unloading a
  model a second time returns \<open>success = False\<close> with the model-not-found message and
  a freed amount of zero, and changes nothing: not the registry, not the file, and no
  request is posted.\<close>

theorem second_unload_not_found:
  assumes "map_get (services st) serviceName = Some service"
    and "distinct (map mName (models service))"
    and "success (fst (unloadModel modelName serviceName e st))"
  shows "unloadModel modelName serviceName e' (snd (unloadModel modelName serviceName e st))
     = (\<lparr>success = False, freedVramGb = 0, message = ModelNotFound modelName serviceName\<rparr>,
        snd (unloadModel modelName serviceName e st))"
proof -
  from assms(3) obtain service' i where
    found': "map_get (services st) serviceName = Some service'"
    and ix: "findIndex (\<lambda>model. mName model = modelName) (models service') = Some i"
    unfolding unloadModel_def by (rule unload_success_found)
  from found' assms(1) have [simp]: "service' = service" by simp
  from findIndex_Some [OF ix] have i: "i < length (models service)"
    and nm: "mName (models service ! i) = modelName" by simp_all
  have sv: "services (snd (unloadModelInternal modelName serviceName e st))
      = map_set serviceName (unloaded i service) (services st)"
    using unload_found_services [OF found' ix] by simp
  have get: "map_get (services (snd (unloadModelInternal modelName serviceName e st))) serviceName
      = Some (unloaded i service)"
    unfolding sv by (rule map_get_map_set_same)
  have "findIndex (\<lambda>model. mName model = modelName) (models (unloaded i service)) = None"
    using distinct_splice1_absent [OF assms(2) i] nm
    by (simp add: findIndex_None unloaded_def)
  with get show ?thesis
    unfolding unloadModel_def by (rule unload_no_model)
qed

theorem second_unload_not_found_witness:
  "map_get (services twoModels) ''svc'' = Some svcTwo
   \<and> distinct (map mName (models svcTwo))
   \<and> success (fst (unloadModel ''m1'' ''svc'' (env64 1) twoModels))
   \<and> unloadModel ''m1'' ''svc'' (env64 2) (snd (unloadModel ''m1'' ''svc'' (env64 1) twoModels))
     = (\<lparr>success = False, freedVramGb = 0, message = ModelNotFound ''m1'' ''svc''\<rparr>,
        snd (unloadModel ''m1'' ''svc'' (env64 1) twoModels))"
proof -
  have d: "distinct (map mName (models svcTwo))"
    by (simp add: svcTwo_def)
  have h: "success (fst (unloadModel ''m1'' ''svc'' (env64 1) twoModels))"
    by (simp add: twoModels_def env64_def run_defs)
  from second_unload_not_found [OF twoModels_svc d h, of "env64 2"] twoModels_svc d h
  show ?thesis by (intro conjI)
qed

subsection \<open>C4: the idle sweep\<close>

text \<open>Two models of one name in one service, the first of them touched after 30 minutes.\<close>

definition sameName :: VRAMManager where
  "sameName =
     run [(RegisterService ''svc'' ''http://svc'' [(''x'', 10), (''x'', 5)], env64 0),
          (UpdateModelUsage ''x'' ''svc'', env64 1800000)]
       (emptyManager 60 4 True 30 Absent)"

text \<open>C4 says that one sweep evicts every model idle for more than the timeout and never
  a model used within it. The sweep splices the array it is iterating over, and it
  unloads by name. With a timeout of 30 minutes and a sweep at minute 31: of two models
  of one service that were both idle for 31 minutes, only the first is evicted, because
  the iterator steps over the model that moved into the freed slot; and of two models of
  one name, the first used a minute ago and the second idle for 31 minutes, the sweep
  evicts the fresh one and keeps the stale one.\<close>

theorem idle_sweep_skips_stale_model:
  "list_all (\<lambda>model. of_int (1860000 - lastUsed model) / (1000 * 60) > unloadTimeoutMinutes twoModels)
     (allModels twoModels)
   \<and> allModels (autoUnloadInactiveModels (env64 1860000) twoModels)
       = [\<lparr>mName = ''m2'', vramUsageGb = 5, lastUsed = 0\<rparr>]
   \<and> allModels sameName
       = [\<lparr>mName = ''x'', vramUsageGb = 10, lastUsed = 1800000\<rparr>,
          \<lparr>mName = ''x'', vramUsageGb = 5, lastUsed = 0\<rparr>]
   \<and> allModels (autoUnloadInactiveModels (env64 1860000) sameName)
       = [\<lparr>mName = ''x'', vramUsageGb = 5, lastUsed = 0\<rparr>]"
  by (simp add: twoModels_def sameName_def env64_def allModels_def run_defs)


subsection \<open>C5: the order of eviction\<close>

text \<open>\<open>VRAMManager\<close> has no priority, no loaded flag and no function that selects
  victims; only the test file speaks of requests with a priority. The eviction policy is
  therefore the one of the specification.\<close>

text \<open>Modelled from the spec: the priority tiers of a Collaborator (section 3: low, medium,
  high). The source has no priorities.\<close>

datatype priority = Low | Medium | High

text \<open>Modelled from the spec: a Lease with the attributes of section 3 (resource name,
  amount, last-used timestamp, loaded flag), together with the name and the priority tier
  of the Collaborator that owns it. The source has no such record.\<close>

record Lease =
  owner :: string
  resource :: string
  amount :: rat
  lastUsedAt :: int
  loaded :: bool
  tier :: priority

text \<open>Modelled from the spec: the position of a tier in "low before medium before high"
  (section 4.3). The source has no priorities.\<close>

fun tierRank :: "priority \<Rightarrow> nat" where
  "tierRank Low = 0"
| "tierRank Medium = 1"
| "tierRank High = 2"

text \<open>Modelled from the spec: \<open>selectVictims(leases, excludeCollaborator, minAmount)\<close> of
  section 4.3, which is missing from the source. The candidates are the loaded leases of
  the other collaborators; they are ordered by ascending tier, then by ascending last-used
  timestamp, by a stable sort. The function returns the whole ordered list, and the caller
  applies as many victims as \<open>minAmount\<close> needs.\<close>

definition selectVictims :: "Lease list \<Rightarrow> string \<Rightarrow> rat \<Rightarrow> Lease list" where
  "selectVictims leases excludeCollaborator minAmount =
     sort_key (\<lambda>lease. (tierRank (tier lease), lastUsedAt lease))
       (filter (\<lambda>lease. loaded lease \<and> owner lease \<noteq> excludeCollaborator) leases)"

text \<open>Modelled from the spec: step 5 of section 4.2, missing from the source. Victims are
  evicted in the policy's order, and the eviction stops as soon as the amount freed so far
  reaches the deficit.\<close>

fun appliedVictims :: "rat \<Rightarrow> Lease list \<Rightarrow> Lease list" where
  "appliedVictims deficit [] = []"
| "appliedVictims deficit (victim # victims) =
     (if deficit \<le> 0 then [] else victim # appliedVictims (deficit - amount victim) victims)"

lemma tierRank_inj: "tierRank a = tierRank b \<longleftrightarrow> a = b"
  by (cases a; cases b) simp_all

text \<open>C5. The victim list is in ascending order of tier (low, medium, high) whatever
  the timestamps are, and within a tier in ascending order of the last-used timestamp;
  leases that agree in both keep the order in which they were inserted; the list holds
  exactly the loaded leases of the other collaborators. In particular, of a high-priority
  and a low-priority lease of equal size, a request that needs that size evicts the
  low-priority lease only, in whichever order the two were inserted and whatever their
  timestamps are.\<close>

theorem eviction_order:
  "sorted_wrt (\<lambda>a b. tierRank (tier a) < tierRank (tier b)
                 \<or> (tier a = tier b \<and> lastUsedAt a \<le> lastUsedAt b))
     (selectVictims leases requester minAmount)
   \<and> (\<forall>r t. filter (\<lambda>lease. tier lease = r \<and> lastUsedAt lease = t)
               (selectVictims leases requester minAmount)
            = filter (\<lambda>lease. tier lease = r \<and> lastUsedAt lease = t)
               (filter (\<lambda>lease. loaded lease \<and> owner lease \<noteq> requester) leases))
   \<and> set (selectVictims leases requester minAmount)
        = {lease \<in> set leases. loaded lease \<and> owner lease \<noteq> requester}
   \<and> (tier a = High \<and> tier b = Low \<and> amount a = amount b \<and> 0 < amount b
        \<and> loaded a \<and> loaded b \<and> owner a \<noteq> requester \<and> owner b \<noteq> requester \<longrightarrow>
        appliedVictims (amount b) (selectVictims [a, b] requester (amount b)) = [b]
        \<and> appliedVictims (amount b) (selectVictims [b, a] requester (amount b)) = [b])"
proof -
  let ?key = "\<lambda>lease. (tierRank (tier lease), lastUsedAt lease)"
  let ?cands = "filter (\<lambda>lease. loaded lease \<and> owner lease \<noteq> requester) leases"
  have "sorted (map ?key (sort_key ?key ?cands))" by (rule sorted_sort_key)
  then have 1: "sorted_wrt (\<lambda>a b. tierRank (tier a) < tierRank (tier b)
                 \<or> (tier a = tier b \<and> lastUsedAt a \<le> lastUsedAt b))
     (selectVictims leases requester minAmount)"
    unfolding selectVictims_def sorted_map
    by (rule sorted_wrt_mono_rel [rotated]) (auto simp: tierRank_inj)
  have 2: "filter (\<lambda>lease. tier lease = r \<and> lastUsedAt lease = t)
               (selectVictims leases requester minAmount)
            = filter (\<lambda>lease. tier lease = r \<and> lastUsedAt lease = t) ?cands" for r t
    using sort_key_stable [of ?key "(tierRank r, t)" ?cands]
    by (simp add: selectVictims_def tierRank_inj)
  have 3: "set (selectVictims leases requester minAmount)
        = {lease \<in> set leases. loaded lease \<and> owner lease \<noteq> requester}"
    by (auto simp: selectVictims_def)
  have 4: "tier a = High \<and> tier b = Low \<and> amount a = amount b \<and> 0 < amount b
        \<and> loaded a \<and> loaded b \<and> owner a \<noteq> requester \<and> owner b \<noteq> requester \<longrightarrow>
        appliedVictims (amount b) (selectVictims [a, b] requester (amount b)) = [b]
        \<and> appliedVictims (amount b) (selectVictims [b, a] requester (amount b)) = [b]"
    by (simp add: selectVictims_def)
  from 1 2 3 4 show ?thesis by blast
qed


text \<open>The leases of the scenario in section 8 of the specification: A holds 20 units at high
  priority, B holds 20 units at low priority, both last used at the same time.\<close>

definition leaseA :: Lease where
  "leaseA = \<lparr>owner = ''A'', resource = ''model-a'', amount = 20, lastUsedAt = 0,
             loaded = True, tier = High\<rparr>"

definition leaseB :: Lease where
  "leaseB = \<lparr>owner = ''B'', resource = ''model-b'', amount = 20, lastUsedAt = 0,
             loaded = True, tier = Low\<rparr>"

theorem eviction_order_witness:
  "tier leaseA = High \<and> tier leaseB = Low \<and> amount leaseA = amount leaseB \<and> 0 < amount leaseB
   \<and> loaded leaseA \<and> loaded leaseB \<and> owner leaseA \<noteq> ''C'' \<and> owner leaseB \<noteq> ''C''
   \<and> appliedVictims (amount leaseB) (selectVictims [leaseA, leaseB] ''C'' (amount leaseB)) = [leaseB]
   \<and> appliedVictims (amount leaseB) (selectVictims [leaseB, leaseA] ''C'' (amount leaseB)) = [leaseB]
   \<and> selectVictims [leaseA, leaseB] ''C'' 20 = [leaseB, leaseA]"
proof -
  have h: "tier leaseA = High \<and> tier leaseB = Low \<and> amount leaseA = amount leaseB
        \<and> 0 < amount leaseB \<and> loaded leaseA \<and> loaded leaseB
        \<and> owner leaseA \<noteq> ''C'' \<and> owner leaseB \<noteq> ''C''"
    by (simp add: leaseA_def leaseB_def)
  from eviction_order [of "[]" "''C''" 0 leaseA leaseB]
  have "tier leaseA = High \<and> tier leaseB = Low \<and> amount leaseA = amount leaseB
        \<and> 0 < amount leaseB \<and> loaded leaseA \<and> loaded leaseB
        \<and> owner leaseA \<noteq> ''C'' \<and> owner leaseB \<noteq> ''C'' \<longrightarrow>
        appliedVictims (amount leaseB) (selectVictims [leaseA, leaseB] ''C'' (amount leaseB)) = [leaseB]
        \<and> appliedVictims (amount leaseB) (selectVictims [leaseB, leaseA] ''C'' (amount leaseB)) = [leaseB]"
    by (elim conjE)
  with h have c: "appliedVictims (amount leaseB) (selectVictims [leaseA, leaseB] ''C'' (amount leaseB)) = [leaseB]
        \<and> appliedVictims (amount leaseB) (selectVictims [leaseB, leaseA] ''C'' (amount leaseB)) = [leaseB]"
    by (rule rev_mp)
  have o: "selectVictims [leaseA, leaseB] ''C'' 20 = [leaseB, leaseA]"
    by (simp add: selectVictims_def leaseA_def leaseB_def)
  from h c o show ?thesis by simp
qed

text \<open>The other scenario of section 8: A holds 20 units and was idle for 60 minutes, B holds
  30 units and was idle for 120 minutes, both at low priority; a request for 25 units
  evicts B only.\<close>

lemma oldest_within_tier:
  "appliedVictims 25
     (selectVictims
        [\<lparr>owner = ''A'', resource = ''model-a'', amount = 20, lastUsedAt = - 3600000,
          loaded = True, tier = Low\<rparr>,
         \<lparr>owner = ''B'', resource = ''model-b'', amount = 30, lastUsedAt = - 7200000,
          loaded = True, tier = Low\<rparr>] ''C'' 25)
   = [\<lparr>owner = ''B'', resource = ''model-b'', amount = 30, lastUsedAt = - 7200000,
       loaded = True, tier = Low\<rparr>]"
  by (simp add: selectVictims_def)

subsection \<open>C9: saving and loading the registry\<close>

text \<open>Every entry of the Map stands under the name it carries, and no key stands twice.\<close>

definition keyed :: "(string \<times> ServiceInfo) list \<Rightarrow> bool" where
  "keyed m \<longleftrightarrow> distinct (map fst m) \<and> list_all (\<lambda>(k, service). sName service = k) m"

lemma list_all_map_set:
  "list_all P m \<Longrightarrow> P (k, v) \<Longrightarrow> list_all P (map_set k v m)"
  by (induction m) auto

lemma keyed_map_set: "keyed m \<Longrightarrow> sName v = k \<Longrightarrow> keyed (map_set k v m)"
  by (simp add: keyed_def distinct_keys_map_set list_all_map_set)

lemma keyed_found: "keyed m \<Longrightarrow> map_get m k = Some service \<Longrightarrow> sName service = k"
  by (auto simp: keyed_def map_get_def list_all_iff dest: map_of_SomeD)

lemma unload_keyed:
  assumes "keyed (services st)"
  shows "keyed (services (snd (unloadModelStart modelName serviceName e st)))"
proof (cases rule: unload_cases [of modelName serviceName e st])
  case unchanged
  from unchanged(1) have "snd (unloadModelStart modelName serviceName e st) = st"
    by (metis snd_conv)
  with assms show ?thesis by simp
next
  case (removed service i)
  from keyed_found [OF assms removed(1)] have "sName (unloaded i service) = serviceName"
    by (simp add: unloaded_def)
  from keyed_map_set [OF assms this] removed(4) show ?thesis by simp
qed

lemma decide_keyed:
  assumes "keyed (services st)"
  shows "keyed (services (snd (registerServiceDecide serviceName serviceUrl ms status e st)))"
proof (cases rule: decide_cases [of serviceName serviceUrl ms status e st])
  case rejected
  with assms show ?thesis by simp
next
  case accepted
  have "sName (registered serviceName serviceUrl ms (now e)) = serviceName"
    by (simp add: registered_def)
  from keyed_map_set [OF assms this] accepted(3) show ?thesis by simp
qed

lemma updateModelUsage_keyed:
  assumes "keyed (services st)"
  shows "keyed (services (snd (updateModelUsage modelName serviceName e st)))"
proof (cases rule: updateModelUsage_cases [of modelName serviceName e st])
  case unchanged
  with assms show ?thesis by simp
next
  case (touched service i)
  from keyed_found [OF assms touched(1)] have "sName (touched i (now e) service) = serviceName"
    by (simp add: touched_def)
  from keyed_map_set [OF assms this] touched(3) show ?thesis by simp
qed

lemma runSteps_keyed: "keyed (services (snd s)) \<Longrightarrow> keyed (services (snd (runSteps steps s)))"
proof -
  assume init: "keyed (services (snd s))"
  have all: "list_all (\<lambda>x. True) steps" by (simp add: list_all_iff)
  show ?thesis
    by (rule runSteps_services [of keyed "\<lambda>ms. True", OF _ _ _ all init])
       (simp_all add: unload_keyed updateModelUsage_keyed decide_keyed)
qed

lemma loadEntries_keyed: "keyed m \<Longrightarrow> keyed (loadEntries t cfg m)"
  by (induction t cfg m rule: loadEntries.induct)
     (simp_all add: keyed_map_set loadedService_def)

lemma keyed_new:
  "keyed (services (newVRAMManager maxGb reserveGb autoUnload timeoutMinutes file e))"
  using loadEntries_keyed [of "[]"]
  by (simp add: keyed_def newVRAMManager_def loadServicesFromConfig_def emptyManager_def
      split: disk.split)

text \<open>Loading into an empty Map a list of well-formed entries with distinct names.\<close>

lemma map_set_new: "k \<notin> set (map fst m) \<Longrightarrow> map_set k v m = m @ [(k, v)]"
  by (induction m) auto

lemma loadEntries_distinct:
  "distinct (map fst m @ map fst cfg) \<Longrightarrow>
   loadEntries t (map Some cfg) m
     = m @ map (\<lambda>service. (fst service, loadedService t service)) cfg"
proof (induction cfg arbitrary: m)
  case Nil
  then show ?case by simp
next
  case (Cons c cfg)
  from Cons.prems have new: "fst c \<notin> set (map fst m)" by auto
  from Cons.prems have "distinct (map fst (m @ [(fst c, loadedService t c)]) @ map fst cfg)"
    by auto
  from Cons.IH [OF this] new show ?case by (simp add: map_set_new)
qed

lemma keys_servicesConfigOf:
  "list_all (\<lambda>(k, service). sName service = k) m \<Longrightarrow> map fst (servicesConfigOf m) = map fst m"
  by (induction m) (auto simp: servicesConfigOf_def map_values_def)

text \<open>A service as it comes back from the file: every timestamp is the time of loading, and
  the cached usage is summed anew from the amounts of its models.\<close>

definition reloaded :: "int \<Rightarrow> ServiceInfo \<Rightarrow> ServiceInfo" where
  "reloaded t service =
     service\<lparr>models := map (\<lambda>model. model\<lparr>lastUsed := t\<rparr>) (models service),
             usedVramGb := foldl (\<lambda>total model. fadd total (vramUsageGb model)) 0
                             (models service)\<rparr>"

lemma loadedService_saved:
  "loadedService t (sName service, url service,
       map (\<lambda>model. (mName model, vramUsageGb model)) (models service)) = reloaded t service"
  by (simp add: loadedService_def reloaded_def foldl_map comp_def)

lemma round_trip_keyed:
  assumes "keyed (services st)" and "fsWritable e"
  shows "services (newVRAMManager maxGb reserveGb autoUnload timeoutMinutes
                     (configFile (saveServicesToConfig e st)) e')
         = map (\<lambda>(k, service). (k, reloaded (now e') service)) (services st)"
proof -
  let ?cfg = "servicesConfigOf (services st)"
  from assms(1) have keys: "map fst ?cfg = map fst (services st)"
    by (simp add: keyed_def keys_servicesConfigOf)
  with assms(1) have "distinct (map fst [] @ map fst ?cfg)" by (simp add: keyed_def)
  from loadEntries_distinct [OF this]
  have "services (newVRAMManager maxGb reserveGb autoUnload timeoutMinutes
                     (configFile (saveServicesToConfig e st)) e')
        = map (\<lambda>service. (fst service, loadedService (now e') service)) ?cfg"
    using assms(2)
    by (simp add: newVRAMManager_def loadServicesFromConfig_def emptyManager_def
        saveServicesToConfig_def)
  also have "\<dots> = map (\<lambda>(k, service). (k, reloaded (now e') service)) (services st)"
    using assms(1)
    by (auto simp: servicesConfigOf_def map_values_def keyed_def list_all_iff
        loadedService_saved)
  finally show ?thesis .
qed

lemma servicesConfigOf_reloaded:
  "servicesConfigOf (map (\<lambda>(k, service). (k, reloaded t service)) m) = servicesConfigOf m"
  by (induction m) (auto simp: servicesConfigOf_def map_values_def reloaded_def comp_def)

text \<open>C9. Let \<open>st\<close> be any state that the constructor and a schedule of calls, whole or
  overlapping, lead to, let \<open>saveServicesToConfig\<close> write it (the write succeeds), and let
  a fresh manager be constructed from that file. Then the fresh registry has the same
  services under the same names in the same order, with the same urls and the same model
  names and amounts (\<open>servicesConfigOf\<close> lists exactly these); it differs from the old
  one only in the timestamps, which are all the time of loading, and in the cached usage,
  which is summed anew. The file is modelled by the value that \<^verbatim>\<open>JSON.stringify\<close> is
  given and \<^verbatim>\<open>JSON.parse\<close> returns.\<close>

theorem persistence_round_trip:
  assumes "fsWritable e"
    and "st = snd (runSteps steps
                (Map.empty, newVRAMManager maxGb reserveGb autoUnload timeoutMinutes file e0))"
    and "fresh = newVRAMManager maxGb' reserveGb' autoUnload' timeoutMinutes'
                   (configFile (saveServicesToConfig e st)) e'"
  shows "servicesConfigOf (services fresh) = servicesConfigOf (services st)
     \<and> map fst (services fresh) = map fst (services st)
     \<and> services fresh = map (\<lambda>(k, service). (k, reloaded (now e') service)) (services st)"
proof -
  have k: "keyed (services st)"
    unfolding assms(2) by (rule runSteps_keyed) (simp add: keyed_new)
  have eq: "services fresh = map (\<lambda>(k, service). (k, reloaded (now e') service)) (services st)"
    unfolding assms(3) by (rule round_trip_keyed [OF k assms(1)])
  have "map fst (map (\<lambda>(k, service). (k, reloaded (now e') service)) (services st))
          = map fst (services st)"
    by (induction "services st") auto
  with eq show ?thesis by (simp add: servicesConfigOf_reloaded)
qed

theorem persistence_round_trip_witness:
  "fsWritable (env64 5)
   \<and> servicesConfigOf (services (newVRAMManager 60 4 True 30
        (configFile (saveServicesToConfig (env64 5) twoServices)) (env64 99)))
       = servicesConfigOf (services twoServices)
   \<and> servicesConfigOf (services twoServices)
       = [(''svc-a'', ''http://a'', [(''a1'', 20)]), (''svc-b'', ''http://b'', [(''b1'', 30)])]
   \<and> map (\<lambda>model. lastUsed model) (allModels twoServices) = [0, 1]
   \<and> map (\<lambda>model. lastUsed model) (allModels (newVRAMManager 60 4 True 30
        (configFile (saveServicesToConfig (env64 5) twoServices)) (env64 99))) = [99, 99]"
proof -
  have w: "fsWritable (env64 5)" by (simp add: env64_def)
  have st: "twoServices = snd (runSteps
     [Call (RegisterService ''svc-a'' ''http://a'' [(''a1'', 20)]) (env64 0),
      Call (RegisterService ''svc-b'' ''http://b'' [(''b1'', 30)]) (env64 1)]
     (Map.empty, newVRAMManager 60 4 True 30 Absent (env64 0)))"
    by (simp add: twoServices_def newVRAMManager_def loadServicesFromConfig_def emptyManager_def)
  from persistence_round_trip [OF w st refl, of 60 4 True 30 "env64 99"]
  have 1: "servicesConfigOf (services (newVRAMManager 60 4 True 30
        (configFile (saveServicesToConfig (env64 5) twoServices)) (env64 99)))
       = servicesConfigOf (services twoServices)"
    by (rule conjunct1)
  have 2: "servicesConfigOf (services twoServices)
       = [(''svc-a'', ''http://a'', [(''a1'', 20)]), (''svc-b'', ''http://b'', [(''b1'', 30)])]"
    by (simp add: twoServices_def env64_def run_defs)
  have 3: "map (\<lambda>model. lastUsed model) (allModels twoServices) = [0, 1]"
    by (simp add: twoServices_def env64_def run_defs allModels_def)
  have 4: "map (\<lambda>model. lastUsed model) (allModels (newVRAMManager 60 4 True 30
        (configFile (saveServicesToConfig (env64 5) twoServices)) (env64 99))) = [99, 99]"
    by (simp add: twoServices_def env64_def run_defs allModels_def)
  from w 1 2 3 4 show ?thesis by (intro conjI)
qed

subsection \<open>C10: the cached usage of a service\<close>

text \<open>The doubles that the literals \<^verbatim>\<open>0.1\<close>, \<^verbatim>\<open>0.2\<close> and \<^verbatim>\<open>0.3\<close> denote.\<close>

definition double01 :: rat where
  "double01 = 3602879701896397 / 36028797018963968"

definition double02 :: rat where
  "double02 = 3602879701896397 / 18014398509481984"

definition double03 :: rat where
  "double03 = 5404319552844595 / 18014398509481984"

lemma double_literals:
  "rnd (1 / 10) = double01" "rnd (2 / 10) = double02" "rnd (3 / 10) = double03"
proof -
  show "rnd (1 / 10) = double01"
    by (rule rnd_eval [where e = "- 56" and z = 7205759403792794])
       (simp_all add: double01_def subnormalBits_def roundEven_def Let_def)
  show "rnd (2 / 10) = double02"
    by (rule rnd_eval [where e = "- 55" and z = 7205759403792794])
       (simp_all add: double02_def subnormalBits_def roundEven_def Let_def)
  show "rnd (3 / 10) = double03"
    by (rule rnd_eval [where e = "- 54" and z = 5404319552844595])
       (simp_all add: double03_def subnormalBits_def roundEven_def Let_def)
qed

text \<open>In doubles, \<^verbatim>\<open>0 + 0.1 + 0.2 + 0.3\<close> is \<^verbatim>\<open>0.6000000000000001\<close>, and
  \<^verbatim>\<open>0.6000000000000001 - 0.1\<close> is \<^verbatim>\<open>0.5000000000000001\<close>, whereas \<^verbatim>\<open>0 + 0.2 + 0.3\<close> is
  \<^verbatim>\<open>0.5\<close>.\<close>

definition double06above :: rat where
  "double06above = 5404319552844596 / 9007199254740992"

definition double05above :: rat where
  "double05above = 4503599627370497 / 9007199254740992"

lemma double_sums:
  "fadd (fadd (fadd 0 double01) double02) double03 = double06above"
  "fsub double06above double01 = double05above"
  "double02 + double03 = 1 / 2"
  "fadd (fadd 0 double02) double03 = 1 / 2"
proof -
  have a: "fadd 0 double01 = double01"
    unfolding fadd_def
    by (rule rnd_dyadic [where n = 3602879701896397 and k = 55])
       (simp_all add: double01_def subnormalBits_def)
  have b: "fadd double01 double02 = 5404319552844596 / 18014398509481984"
    unfolding fadd_def
    by (rule rnd_eval [where e = "- 54" and z = 5404319552844596])
       (simp_all add: double01_def double02_def subnormalBits_def roundEven_def Let_def)
  have c: "fadd (5404319552844596 / 18014398509481984) double03 = double06above"
    unfolding fadd_def
    by (rule rnd_eval [where e = "- 53" and z = 5404319552844596])
       (simp_all add: double03_def double06above_def subnormalBits_def roundEven_def Let_def)
  show "fadd (fadd (fadd 0 double01) double02) double03 = double06above"
    by (simp only: a b c)
  show "fsub double06above double01 = double05above"
    unfolding fsub_def
    by (rule rnd_eval [where e = "- 53" and z = 4503599627370497])
       (simp_all add: double01_def double06above_def double05above_def subnormalBits_def
          roundEven_def Let_def)
  show sum: "double02 + double03 = 1 / 2"
    by (simp add: double02_def double03_def)
  have d: "fadd 0 double02 = double02"
    unfolding fadd_def
    by (rule rnd_dyadic [where n = 3602879701896397 and k = 54])
       (simp_all add: double02_def subnormalBits_def)
  have "fadd double02 double03 = 1 / 2"
    unfolding fadd_def sum using rnd_grid [of 1 1] by (simp add: subnormalBits_def)
  then show "fadd (fadd 0 double02) double03 = 1 / 2" by (simp only: d)
qed

text \<open>A service registers three models of 0.1, 0.2 and 0.3 GB and unloads the first.\<close>

definition threeModels :: VRAMManager where
  "threeModels =
     run [(RegisterService ''svc'' ''http://svc''
             [(''m1'', double01), (''m2'', double02), (''m3'', double03)], env64 0),
          (UnloadModel ''m1'' ''svc'', env64 1)]
       (emptyManager 60 4 True 30 Absent)"

lemma probe64: "fadd 0 (fdiv 65536 1024) = 64" "fsub 64 0 = 64" "fsub 64 4 = 60"
  by (simp_all add: fadd_def fsub_def fdiv_def)

text \<open>C10 as stated (at all times the cached \<open>usedVramGb\<close> of a service equals the sum of
  \<open>vramUsageGb\<close> over the models it holds) is false here. The service holds 0.2 and
  0.3 GB, which sum to 0.5 both exactly and in doubles, and its cached usage is
  0.5000000000000001, which is \<open>1 / 2 + 2 powi - 53\<close>: the registration caches the rounded
  sum of the three amounts and the unload subtracts the first amount from it.\<close>

theorem usedVramGb_drift_counterexample:
  "map (\<lambda>service. (map vramUsageGb (models service), usedVramGb service))
     (map_values (services threeModels))
     = [([double02, double03], double05above)]
   \<and> sum_list [double02, double03] = 1 / 2
   \<and> foldl (\<lambda>total x. fadd total x) 0 [double02, double03] = 1 / 2
   \<and> double05above = 1 / 2 + 1 / 2 ^ 53"
proof -
  have le: "\<not> 60 < double06above" by (simp add: double06above_def)
  have 1: "map (\<lambda>service. (map vramUsageGb (models service), usedVramGb service))
     (map_values (services threeModels))
     = [([double02, double03], double05above)]"
    by (simp add: threeModels_def env64_def call_defs double_sums probe64 le)
  have 2: "sum_list [double02, double03] = 1 / 2" by (simp add: double_sums)
  have 3: "foldl (\<lambda>total x. fadd total x) 0 [double02, double03] = 1 / 2"
    by (simp add: double_sums)
  have 4: "double05above = 1 / 2 + 1 / 2 ^ 53" by (simp add: double05above_def)
  from 1 2 3 4 show ?thesis by (intro conjI)
qed

text \<open>A config file whose well-formed entries hold plain amounts.\<close>

definition plainFile :: "nat \<Rightarrow> disk \<Rightarrow> bool" where
  "plainFile k file =
     (case file of
        Stored entries \<Rightarrow>
          list_all (\<lambda>entry. case entry of None \<Rightarrow> True
                             | Some service \<Rightarrow> plainAmounts k (map snd (snd (snd service))))
            entries
      | _ \<Rightarrow> True)"

lemma plain_new:
  assumes "plainFile k file" and "k \<le> subnormalBits"
  shows "list_all (plainService k)
           (map_values (services (newVRAMManager maxGb reserveGb autoUnload timeoutMinutes file e)))"
proof (cases "file")
  case (Stored entries)
  from assms(1) have "list_all (\<lambda>entry. case entry of None \<Rightarrow> True
      | Some service \<Rightarrow> plainService k (loadedService (now e) service)) entries"
    by (auto simp: plainFile_def Stored list_all_iff plainService_loadedService [OF _ assms(2)]
        split: option.split)
  from loadEntries_list_all [of "plainService k" "[]", OF _ this] show ?thesis
    by (simp add: newVRAMManager_def loadServicesFromConfig_def emptyManager_def Stored
        map_values_def)
qed (simp_all add: newVRAMManager_def loadServicesFromConfig_def emptyManager_def map_values_def)

lemma runSteps_plain:
  assumes "k \<le> subnormalBits"
    and "list_all (\<lambda>x. plainAmounts k (map snd (stepSpecs x))) steps"
    and "list_all (plainService k) (map_values (services (snd s)))"
  shows "list_all (plainService k) (map_values (services (snd (runSteps steps s))))"
proof (rule runSteps_services
    [of "\<lambda>m. list_all (plainService k) (map_values m)" "\<lambda>ms. plainAmounts k (map snd ms)",
     OF _ _ _ assms(2,3)])
  fix modelName serviceName e and st :: VRAMManager
  assume "list_all (plainService k) (map_values (services st))"
  then show "list_all (plainService k)
      (map_values (services (snd (unloadModelStart modelName serviceName e st))))"
    by (rule unload_list_all) (rule plainService_unloaded [OF _ _ assms(1)])
next
  fix modelName serviceName e and st :: VRAMManager
  assume "list_all (plainService k) (map_values (services st))"
  then show "list_all (plainService k)
      (map_values (services (snd (updateModelUsage modelName serviceName e st))))"
    by (rule updateModelUsage_list_all) (rule plainService_touched)
next
  fix serviceName serviceUrl status e and ms :: "ModelSpec list" and st :: VRAMManager
  assume "plainAmounts k (map snd ms)" and "list_all (plainService k) (map_values (services st))"
  then show "list_all (plainService k)
      (map_values (services (snd (registerServiceDecide serviceName serviceUrl ms status e st))))"
    by (intro decide_list_all plainService_registered assms(1))
qed

text \<open>C10, as amended. \<open>usedVramGb\<close> is a running sum in doubles: a registration and a
  load cache the rounded sum of the amounts, an unload subtracts the freed amount from the
  cached value and rounds again. Let every amount that is passed to \<open>registerService\<close>
  or stands in a well-formed entry of the config file be a non-negative multiple of
  \<open>2 powi - k\<close> GB (for a \<open>k\<close> of at most 1074), and let the amounts of one
  registration, and of one entry, sum to less than \<open>2 powi (53 - k)\<close> GB. Then in every
  state that the constructor and any schedule of registrations, re-registrations, unloads,
  sweeps, touches and status reads, whole or overlapping, lead to, the cached
  \<open>usedVramGb\<close> of every registered service equals the sum of \<open>vramUsageGb\<close> over the
  models the service holds.\<close>

theorem usedVramGb_consistent:
  assumes "k \<le> 1074"
    and "plainFile k file"
    and "list_all (\<lambda>x. plainAmounts k (map snd (stepSpecs x))) steps"
  shows "list_all (\<lambda>service. usedVramGb service = sum_list (map vramUsageGb (models service)))
           (map_values (services (snd (runSteps steps
              (Map.empty, newVRAMManager maxGb reserveGb autoUnload timeoutMinutes file e0)))))"
proof -
  from assms(1) have k: "k \<le> subnormalBits" by (simp add: subnormalBits_def)
  have "list_all (plainService k) (map_values (services (snd (runSteps steps
              (Map.empty, newVRAMManager maxGb reserveGb autoUnload timeoutMinutes file e0)))))"
    by (rule runSteps_plain [OF k assms(3)]) (simp add: plain_new [OF assms(2) k])
  then show ?thesis by (simp add: list_all_iff plainService_def heldGb_def)
qed

text \<open>An instance with amounts in whole megabytes: a config file with one service, a
  registration of two models that overlaps with a status read, and the unload of one of
  the two.\<close>

theorem usedVramGb_consistent_witness:
  "(10 :: nat) \<le> 1074
   \<and> plainFile 10 (Stored [Some (''old'', ''http://old'', [(''m0'', 3 / 2)])])
   \<and> list_all (\<lambda>x. plainAmounts 10 (map snd (stepSpecs x)))
       [RegisterStatus 0 (env64 0), Call GetVRAMStatus (env64 1),
        RegisterDecide 0 ''svc'' ''http://svc'' [(''m1'', 10), (''m2'', 5 / 1024)] (env64 2),
        Call (UnloadModel ''m1'' ''svc'') (env64 3)]
   \<and> list_all (\<lambda>service. usedVramGb service = sum_list (map vramUsageGb (models service)))
       (map_values (services (snd (runSteps
          [RegisterStatus 0 (env64 0), Call GetVRAMStatus (env64 1),
           RegisterDecide 0 ''svc'' ''http://svc'' [(''m1'', 10), (''m2'', 5 / 1024)] (env64 2),
           Call (UnloadModel ''m1'' ''svc'') (env64 3)]
          (Map.empty, newVRAMManager 60 4 True 30
             (Stored [Some (''old'', ''http://old'', [(''m0'', 3 / 2)])]) (env64 0))))))"
proof -
  have k: "(10 :: nat) \<le> 1074" by simp
  have f: "plainFile 10 (Stored [Some (''old'', ''http://old'', [(''m0'', 3 / 2)])])"
    by (simp add: plainFile_def plainAmounts_def grid_def)
  have s: "list_all (\<lambda>x. plainAmounts 10 (map snd (stepSpecs x)))
       [RegisterStatus 0 (env64 0), Call GetVRAMStatus (env64 1),
        RegisterDecide 0 ''svc'' ''http://svc'' [(''m1'', 10), (''m2'', 5 / 1024)] (env64 2),
        Call (UnloadModel ''m1'' ''svc'') (env64 3)]"
    by (simp add: plainAmounts_def grid_def)
  from usedVramGb_consistent [OF k f s, of 60 4 True 30 "env64 0"] k f s
  show ?thesis by (intro conjI)
qed

subsection \<open>C1: the ledger invariant\<close>

lemma abs_scaled_less:
  fixes x a b c :: rat
  assumes "x \<le> a" and "- b \<le> x" and "a * 2 ^ k < c" and "b * 2 ^ k < c"
  shows "\<bar>x\<bar> * 2 ^ k < c"
proof -
  have "x * 2 ^ k \<le> a * 2 ^ k" by (rule mult_right_mono) (use assms(1) in simp_all)
  from this assms(3) have 1: "x * 2 ^ k < c" by (rule le_less_trans)
  have "- x * 2 ^ k \<le> b * 2 ^ k" by (rule mult_right_mono) (use assms(2) in simp_all)
  from this assms(4) have 2: "- x * 2 ^ k < c" by (rule le_less_trans)
  have "\<bar>x\<bar> * 2 ^ k = \<bar>x * 2 ^ k\<bar>" by (simp add: abs_mult)
  with 1 2 show ?thesis by (simp add: abs_less_iff)
qed

lemma committedGb_nonneg:
  "list_all (plainService k) (map_values (services st)) \<Longrightarrow> 0 \<le> committedGb st"
  unfolding committedGb_heldGb
  by (rule sum_list_nonneg) (auto simp: list_all_iff plainService_nonneg)

lemma committedGb_grid:
  "list_all (plainService k) (map_values (services st)) \<Longrightarrow> grid k (committedGb st)"
  unfolding committedGb_heldGb
  by (rule grid_sum_list) (auto simp: list_all_iff plainService_grid)

lemma committedGb_cong: "services a = services b \<Longrightarrow> committedGb a = committedGb b"
  by (simp add: committedGb_def allModels_def)

text \<open>With plain amounts in the registry the used total is the exact sum, and the
  available amount is the exact difference, clipped at 0.\<close>

lemma usedSum_plain:
  assumes "list_all (plainService k) (map_values (services st))"
    and "committedGb st * 2 ^ k < 2 ^ 53" and "k \<le> subnormalBits"
  shows "usedSum st = committedGb st"
proof -
  let ?vs = "map_values (services st)"
  from assms(1) have eq: "map usedVramGb ?vs = map heldGb ?vs"
    by (auto simp: list_all_iff plainService_def)
  from assms(1) have all: "list_all (\<lambda>service. 0 \<le> usedVramGb service \<and> grid k (usedVramGb service)) ?vs"
    using plainService_nonneg [of k] plainService_grid [of k]
    by (auto simp: list_all_iff plainService_def)
  have "foldl (\<lambda>total service. fadd total (usedVramGb service)) 0 ?vs
          = 0 + sum_list (map usedVramGb ?vs)"
    by (rule foldl_fadd_exact [OF assms(3) all])
       (use assms(2) in \<open>simp_all add: eq committedGb_heldGb\<close>)
  then show ?thesis by (simp add: usedSum_def eq committedGb_heldGb)
qed

lemma availableGb_plain:
  assumes "list_all (plainService k) (map_values (services st))" and "k \<le> subnormalBits"
    and "grid k T" and "0 \<le> T" and "T * 2 ^ k < 2 ^ 53"
    and "grid k (vramReserveGb st)" and "0 \<le> vramReserveGb st"
    and "(committedGb st + vramReserveGb st) * 2 ^ k < 2 ^ 53"
  shows "availableGb T st = max 0 (T - committedGb st - vramReserveGb st)"
proof -
  let ?C = "committedGb st" and ?R = "vramReserveGb st"
  note C0 = committedGb_nonneg [OF assms(1)]
  note Cg = committedGb_grid [OF assms(1)]
  have "?C * 2 ^ k \<le> (?C + ?R) * 2 ^ k" by (rule mult_right_mono) (use assms(7) in simp_all)
  from this assms(8) have Cb: "?C * 2 ^ k < 2 ^ 53" by (rule le_less_trans)
  from usedSum_plain [OF assms(1) Cb assms(2)] have used: "usedSum st = ?C" .
  have "\<bar>T - ?C\<bar> * 2 ^ k < 2 ^ 53"
    by (rule abs_scaled_less [of _ T ?C]) (use C0 assms(4,5) Cb in simp_all)
  from fsub_exact [OF assms(3) Cg this assms(2)] have 1: "fsub T ?C = T - ?C" .
  have "\<bar>T - ?C - ?R\<bar> * 2 ^ k < 2 ^ 53"
    by (rule abs_scaled_less [of _ T "?C + ?R"]) (use C0 assms(4,5,7,8) in simp_all)
  from fsub_exact [OF grid_diff [OF assms(3) Cg] assms(6) this assms(2)]
  have 2: "fsub (T - ?C) ?R = T - ?C - ?R" .
  show ?thesis by (simp add: availableGb_def used 1 2)
qed

text \<open>The invariant: the registry holds plain amounts with exact caches, the reserve is
  \<open>R\<close>, and the held amounts sum to at most \<open>T - R\<close>.\<close>

definition ledger :: "nat \<Rightarrow> rat \<Rightarrow> rat \<Rightarrow> VRAMManager \<Rightarrow> bool" where
  "ledger k T R st \<longleftrightarrow>
     list_all (plainService k) (map_values (services st)) \<and> vramReserveGb st = R
     \<and> committedGb st \<le> T - R"

lemma ledger_cong:
  "services a = services b \<Longrightarrow> vramReserveGb a = vramReserveGb b \<Longrightarrow>
   ledger k T R a = ledger k T R b"
  by (simp add: ledger_def committedGb_cong [of a b])

lemma unload_freed_nonneg:
  assumes "list_all (plainService k) (map_values (services st))"
  shows "0 \<le> freedVramGb (fst (unloadModelStart modelName serviceName e st))"
proof (cases "map_get (services st) serviceName")
  case None
  then show ?thesis by (simp add: start_no_service)
next
  case (Some service)
  note found = this
  show ?thesis
  proof (cases "findIndex (\<lambda>model. mName model = modelName) (models service)")
    case None
    with found show ?thesis by (simp add: start_no_model)
  next
    case (Some i)
    from findIndex_Some [OF Some] have i: "i < length (models service)" by simp
    from found have "service \<in> set (map_values (services st))"
      by (simp add: map_get_def map_of_values)
    with assms have "plainService k service" by (simp add: list_all_iff)
    with i have "0 \<le> vramUsageGb (models service ! i)"
      by (simp add: plainService_def plainAmounts_def list_all_length)
    then show ?thesis by (simp add: unload_found_result [OF found Some])
  qed
qed

lemma unload_ledger:
  assumes "k \<le> subnormalBits" and "ledger k T R st"
  shows "ledger k T R (snd (unloadModelStart modelName serviceName e st))"
    and "committedGb (snd (unloadModelStart modelName serviceName e st)) \<le> committedGb st"
proof -
  from assms(2) have plain: "list_all (plainService k) (map_values (services st))"
    by (simp add: ledger_def)
  have "list_all (plainService k)
      (map_values (services (snd (unloadModelStart modelName serviceName e st))))"
    using plain by (rule unload_list_all) (rule plainService_unloaded [OF _ _ assms(1)])
  with assms(2) unload_freed_nonneg [OF plain, of modelName serviceName e]
  show "ledger k T R (snd (unloadModelStart modelName serviceName e st))"
    by (simp add: ledger_def unload_committedGb)
  from unload_freed_nonneg [OF plain, of modelName serviceName e]
  show "committedGb (snd (unloadModelStart modelName serviceName e st)) \<le> committedGb st"
    by (simp add: unload_committedGb)
qed

lemma updateModelUsage_vramReserveGb [simp]:
  "vramReserveGb (snd (updateModelUsage modelName serviceName e st)) = vramReserveGb st"
  by (cases rule: updateModelUsage_cases [of modelName serviceName e st]) simp_all

lemma updateModelUsage_ledger:
  assumes "ledger k T R st"
  shows "ledger k T R (snd (updateModelUsage modelName serviceName e st))"
proof -
  from assms have "list_all (plainService k)
      (map_values (services (snd (updateModelUsage modelName serviceName e st))))"
    unfolding ledger_def
    by (intro updateModelUsage_list_all) (simp_all add: plainService_touched)
  with assms show ?thesis by (simp add: ledger_def updateModelUsage_committedGb)
qed

lemma autoUnload_ledger:
  assumes "k \<le> subnormalBits" and "ledger k T R st"
  shows "ledger k T R (autoUnloadInactiveModels e st)"
    and "committedGb (autoUnloadInactiveModels e st) \<le> committedGb st"
proof -
  let ?I = "\<lambda>s. ledger k T R s \<and> committedGb s \<le> committedGb st"
  have detached: "?I (unloadModelDetached modelName serviceName e s)"
    if "?I s" for modelName serviceName s
  proof -
    from that have led: "ledger k T R s" and le: "committedGb s \<le> committedGb st" by simp_all
    have "ledger k T R (unloadModelDetached modelName serviceName e s)"
      using unload_ledger(1) [OF assms(1) led, of modelName serviceName e]
        ledger_cong [of "unloadModelDetached modelName serviceName e s"
          "snd (unloadModelStart modelName serviceName e s)" k T R]
      by simp
    moreover have "committedGb (unloadModelDetached modelName serviceName e s) \<le> committedGb st"
      using unload_ledger(2) [OF assms(1) led, of modelName serviceName e] le
        committedGb_cong [of "unloadModelDetached modelName serviceName e s"
          "snd (unloadModelStart modelName serviceName e s)"]
      by simp
    ultimately show ?thesis by simp
  qed
  have "?I (sweepServices e 0 st)"
    using sweepServices_preserves [of ?I e st 0] detached assms(2) by blast
  then show "ledger k T R (autoUnloadInactiveModels e st)"
    and "committedGb (autoUnloadInactiveModels e st) \<le> committedGb st"
    using ledger_cong [of "settleFetches (sweepServices e 0 st)" "sweepServices e 0 st" k T R]
      committedGb_cong [of "settleFetches (sweepServices e 0 st)" "sweepServices e 0 st"]
    by (simp_all add: autoUnloadInactiveModels_def)
qed

text \<open>Under the invariant a status read reports what the total leaves after the reserve
  and the held amounts.\<close>

lemma status_ledger:
  assumes k: "k \<le> subnormalBits" and led: "ledger k T R st"
    and T: "grid k T" "T * 2 ^ k < 2 ^ 53"
    and R: "grid k R" "0 \<le> R" "R \<le> T"
    and probe: "probedTotal (gpu e) = T"
  shows "status_availableVramGb (fst (getVRAMStatus e st)) = T - R - committedGb st"
proof -
  from led have plain: "list_all (plainService k) (map_values (services st))"
    and res: "vramReserveGb st = R" and le: "committedGb st \<le> T - R"
    by (simp_all add: ledger_def)
  let ?C = "committedGb st"
  have "(?C + R) * 2 ^ k \<le> T * 2 ^ k" by (rule mult_right_mono) (use le in simp_all)
  from this T(2) have "(?C + R) * 2 ^ k < 2 ^ 53" by (rule le_less_trans)
  with availableGb_plain [OF plain k T(1) _ T(2)] R res
  have "availableGb T st = max 0 (T - ?C - R)" by simp
  with le show ?thesis by (simp add: getVRAMStatus_available probe)
qed

text \<open>The second part of a registration keeps the invariant when the available amount
  of its status is at most what the registry leaves at the time of the decision.\<close>

lemma decide_ledger:
  assumes k: "k \<le> subnormalBits" and led: "ledger k T R st"
    and ms: "plainAmounts k (map snd ms)"
    and status: "status_availableVramGb status \<le> T - R - committedGb st"
  shows "ledger k T R (snd (registerServiceDecide serviceName serviceUrl ms status e st))"
proof (cases rule: decide_cases [of serviceName serviceUrl ms status e st])
  case rejected
  with led show ?thesis by simp
next
  case accepted
  from led have plain: "list_all (plainService k) (map_values (services st))"
    and res: "vramReserveGb st = R"
    by (simp_all add: ledger_def)
  from accepted(2) status have "sum_list (map snd ms) \<le> T - R - committedGb st"
    by (simp add: requestedGb_plain [OF ms k])
  moreover have "0 \<le> (case map_of (services st) serviceName of None \<Rightarrow> 0 | Some old \<Rightarrow> heldGb old)"
  proof (cases "map_of (services st) serviceName")
    case None
    then show ?thesis by simp
  next
    case (Some old)
    then have "old \<in> set (map_values (services st))" by (rule map_of_values)
    with plain have "plainService k old" by (simp add: list_all_iff)
    with Some show ?thesis by (simp add: plainService_nonneg)
  qed
  ultimately have "committedGb (snd (registerServiceDecide serviceName serviceUrl ms status e st))
      \<le> T - R"
    by (simp add: accepted(3) committedGb_heldGb sum_values_map_set heldGb_registered)
  moreover have "list_all (plainService k) (map_values
      (services (snd (registerServiceDecide serviceName serviceUrl ms status e st))))"
    by (rule decide_list_all) (simp_all add: plain plainService_registered [OF ms k])
  moreover have "vramReserveGb (snd (registerServiceDecide serviceName serviceUrl ms status e st)) = R"
    by (simp add: accepted(3) saveServicesToConfig_def res)
  ultimately show ?thesis by (simp add: ledger_def)
qed

text \<open>A step whose probe, if it makes one, reports the total \<open>T\<close>.\<close>

fun fixedProbe :: "rat \<Rightarrow> step \<Rightarrow> bool" where
  "fixedProbe T (Call c e) = (probedTotal (gpu e) = T)"
| "fixedProbe T (RegisterStatus r e) = (probedTotal (gpu e) = T)"
| "fixedProbe T (RegisterDecide r serviceName serviceUrl ms e) = True"

lemma register_ledger:
  assumes k: "k \<le> subnormalBits" and led: "ledger k T R st"
    and T: "grid k T" "T * 2 ^ k < 2 ^ 53"
    and R: "grid k R" "0 \<le> R" "R \<le> T"
    and probe: "probedTotal (gpu e) = T" and ms: "plainAmounts k (map snd ms)"
  shows "ledger k T R (snd (registerService serviceName serviceUrl ms e st))"
proof -
  have led': "ledger k T R (updateTotalVram e st)"
    using led ledger_cong [of "updateTotalVram e st" st k T R] by simp
  have "status_availableVramGb (fst (getVRAMStatus e st))
          \<le> T - R - committedGb (updateTotalVram e st)"
    using status_ledger [OF k led T R probe] committedGb_cong [of "updateTotalVram e st" st]
    by simp
  from decide_ledger [OF k led' ms this] show ?thesis
    by (simp add: registerService_decide)
qed

text \<open>A call that is no registration keeps the invariant and does not raise the sum of
  the held amounts.\<close>

lemma exec_ledger:
  assumes k: "k \<le> subnormalBits" and led: "ledger k T R st"
    and c: "\<And>serviceName serviceUrl ms. c \<noteq> RegisterService serviceName serviceUrl ms"
  shows "ledger k T R (exec c e st)" and "committedGb (exec c e st) \<le> committedGb st"
proof -
  have "ledger k T R (exec c e st) \<and> committedGb (exec c e st) \<le> committedGb st"
  proof (cases c)
    case (RegisterService serviceName serviceUrl ms)
    with c [of serviceName serviceUrl ms] show ?thesis by simp
  next
    case (UnloadModel modelName serviceName)
    from unload_ledger [OF k led, of modelName serviceName e]
      ledger_cong [of "snd (unloadModelInternal modelName serviceName e st)"
        "snd (unloadModelStart modelName serviceName e st)" k T R]
      committedGb_cong [of "snd (unloadModelInternal modelName serviceName e st)"
        "snd (unloadModelStart modelName serviceName e st)"]
    show ?thesis
      by (simp add: UnloadModel unloadModel_def unloadModelInternal_def split_beta)
  next
    case (UpdateModelUsage modelName serviceName)
    with updateModelUsage_ledger [OF led] show ?thesis
      by (simp add: updateModelUsage_committedGb)
  next
    case AutoUnloadInactiveModels
    with autoUnload_ledger [OF k led] show ?thesis by simp
  next
    case GetVRAMStatus
    with led ledger_cong [of "snd (getVRAMStatus e st)" st k T R]
      committedGb_cong [of "snd (getVRAMStatus e st)" st]
    show ?thesis by (simp add: getVRAMStatus_state)
  qed
  then show "ledger k T R (exec c e st)" and "committedGb (exec c e st) \<le> committedGb st"
    by simp_all
qed

text \<open>Along a schedule in which registrations stay apart, the invariant holds, and the
  registration in flight, if there is one, keeps a status whose available amount is at
  most what the registry leaves.\<close>

lemma apart_ledger:
  assumes k: "k \<le> subnormalBits"
    and T: "grid k T" "T * 2 ^ k < 2 ^ 53"
    and R: "grid k R" "0 \<le> R" "R \<le> T"
  shows "apart p steps \<Longrightarrow>
         list_all (\<lambda>x. fixedProbe T x \<and> plainAmounts k (map snd (stepSpecs x))) steps \<Longrightarrow>
         ledger k T R st \<Longrightarrow>
         (\<And>r. p = Some r \<Longrightarrow>
            \<exists>status. pending r = Some status
              \<and> status_availableVramGb status \<le> T - R - committedGb st) \<Longrightarrow>
         ledger k T R (snd (runSteps steps (pending, st)))"
proof (induction steps arbitrary: p pending st)
  case Nil
  then show ?case by simp
next
  case (Cons x xs)
  note led = Cons.prems(3)
  from Cons.prems(2) have probe: "fixedProbe T x" and ms: "plainAmounts k (map snd (stepSpecs x))"
    and rest: "list_all (\<lambda>x. fixedProbe T x \<and> plainAmounts k (map snd (stepSpecs x))) xs"
    by simp_all
  show ?case
  proof (cases x)
    case (Call c e)
    show ?thesis
    proof (cases "\<exists>serviceName serviceUrl ms. c = RegisterService serviceName serviceUrl ms")
      case True
      then obtain serviceName serviceUrl ms' where c: "c = RegisterService serviceName serviceUrl ms'"
        by blast
      from Cons.prems(1) have p: "p = None" and xs: "apart None xs" by (simp_all add: Call c)
      from probe ms have "ledger k T R (exec c e st)"
        using register_ledger [OF k led T R, of e ms' serviceName serviceUrl] by (simp add: Call c)
      then have "ledger k T R (snd (runSteps xs (pending, exec c e st)))"
        by (rule Cons.IH [OF xs rest]) simp
      then show ?thesis by (simp add: Call)
    next
      case False
      then have c: "\<And>serviceName serviceUrl ms. c \<noteq> RegisterService serviceName serviceUrl ms"
        by blast
      from Cons.prems(1) c have xs: "apart p xs" by (cases c) (simp_all add: Call)
      note step = exec_ledger [OF k led c, of e]
      have bound: "\<exists>status. pending r = Some status
              \<and> status_availableVramGb status \<le> T - R - committedGb (exec c e st)"
        if "p = Some r" for r
      proof -
        from Cons.prems(4) [OF that] obtain status where "pending r = Some status"
          and "status_availableVramGb status \<le> T - R - committedGb st" by blast
        with step(2) show ?thesis by auto
      qed
      have "ledger k T R (snd (runSteps xs (pending, exec c e st)))"
        by (rule Cons.IH [OF xs rest step(1)]) (rule bound)
      then show ?thesis by (simp add: Call)
    qed
  next
    case (RegisterStatus r e)
    from Cons.prems(1) have p: "p = None" and xs: "apart (Some r) xs"
      by (simp_all add: RegisterStatus)
    from probe have T': "probedTotal (gpu e) = T" by (simp add: RegisterStatus)
    let ?st = "snd (getVRAMStatus e st)"
    let ?pending = "pending(r \<mapsto> fst (getVRAMStatus e st))"
    have led': "ledger k T R ?st"
      using led ledger_cong [of ?st st k T R] by (simp add: getVRAMStatus_state)
    have bound: "\<exists>status. ?pending r' = Some status
            \<and> status_availableVramGb status \<le> T - R - committedGb ?st"
      if "Some r = Some r'" for r'
      using that status_ledger [OF k led T R T'] committedGb_cong [of ?st st]
      by (simp add: getVRAMStatus_state)
    have "ledger k T R (snd (runSteps xs (?pending, ?st)))"
      by (rule Cons.IH [OF xs rest led']) (rule bound)
    then show ?thesis by (simp add: RegisterStatus)
  next
    case (RegisterDecide r serviceName serviceUrl ms' e)
    from Cons.prems(1) have p: "p = Some r" and xs: "apart None xs"
      by (simp_all add: RegisterDecide)
    from Cons.prems(4) [OF p] obtain status where pending: "pending r = Some status"
      and status: "status_availableVramGb status \<le> T - R - committedGb st" by blast
    from ms have "plainAmounts k (map snd ms')" by (simp add: RegisterDecide)
    from decide_ledger [OF k led this status]
    have "ledger k T R (snd (registerServiceDecide serviceName serviceUrl ms' status e st))" .
    then have "ledger k T R (snd (runSteps xs (pending(r := None),
        snd (registerServiceDecide serviceName serviceUrl ms' status e st))))"
      by (rule Cons.IH [OF xs rest]) simp
    then show ?thesis by (simp add: RegisterDecide pending)
  qed
qed

text \<open>The bound is relative to the capacity of the moment, and the capacity is probed
  again by every status read. In the first run 70 GB are admitted on an 80 GB card, then
  one probe throws and the total falls back to 64. In the second the card has 2 GB, less
  than the reserve of 4, and the empty registry is already above the bound.\<close>

definition afterProbeFailure :: VRAMManager where
  "afterProbeFailure =
     run [(RegisterService ''svc-a'' ''http://a'' [(''m'', 70)],
             \<lparr>now = 0, gpu = Controllers [Some 81920], fsWritable = True, fetchResult = FetchOk\<rparr>),
          (GetVRAMStatus,
             \<lparr>now = 1, gpu = ProbeError, fsWritable = True, fetchResult = FetchOk\<rparr>)]
       (emptyManager 60 4 True 30 Absent)"

definition onSmallGpu :: VRAMManager where
  "onSmallGpu =
     run [(GetVRAMStatus,
             \<lparr>now = 0, gpu = Controllers [Some 2048], fsWritable = True, fetchResult = FetchOk\<rparr>)]
       (emptyManager 60 4 True 30 Absent)"

text \<open>C1 as stated (in every reachable state the held amounts sum to at most the total
  capacity minus the reserve) is false in both states: 70 against 64 - 4, and 0 against
  2 - 4.\<close>

theorem ledger_invariant_counterexample:
  "\<not> committedGb afterProbeFailure
       \<le> totalVramGb afterProbeFailure - vramReserveGb afterProbeFailure
   \<and> \<not> committedGb onSmallGpu \<le> totalVramGb onSmallGpu - vramReserveGb onSmallGpu"
  by (simp add: afterProbeFailure_def onSmallGpu_def committedGb_def allModels_def run_defs)

text \<open>With one total for the whole run the bound still fails in three ways, which the
  amended statement excludes one by one.

  Two registrations overlap: both read the status of the empty registry before either
  writes, and both are admitted with 40 GB on a card of 64 GB with a reserve of 4.\<close>

definition afterOverlap :: VRAMManager where
  "afterOverlap =
     snd (runSteps
       [RegisterStatus 0 (env64 0), RegisterStatus 1 (env64 0),
        RegisterDecide 0 ''svc-a'' ''http://a'' [(''a1'', 40)] (env64 1),
        RegisterDecide 1 ''svc-b'' ''http://b'' [(''b1'', 40)] (env64 1)]
       (Map.empty, emptyManager 60 4 True 30 Absent))"

lemma overlapping_registrations_break_ledger:
  "committedGb afterOverlap = 80
   \<and> totalVramGb afterOverlap - vramReserveGb afterOverlap = 60"
  by (simp add: afterOverlap_def env64_def committedGb_def allModels_def run_defs)

text \<open>A sum is rounded: a service registers 32 GB and \<open>2 powi - 50\<close> GB, which
  \<^verbatim>\<open>reduce\<close> adds up to 32, and 28 GB more are admitted.\<close>

definition sliver :: rat where
  "sliver = 1 / 2 ^ 50"

definition afterRounding :: VRAMManager where
  "afterRounding =
     run [(RegisterService ''svc-a'' ''http://a'' [(''a1'', 32), (''a2'', sliver)], env64 0),
          (RegisterService ''svc-b'' ''http://b'' [(''b1'', 28)], env64 1)]
       (emptyManager 60 4 True 30 Absent)"

lemma fadd_sliver: "fadd 32 sliver = 32"
  unfolding fadd_def
  by (rule rnd_eval [where e = "- 47" and z = 4503599627370496])
     (simp_all add: sliver_def subnormalBits_def roundEven_def Let_def)

lemma rounded_sum_breaks_ledger:
  "committedGb afterRounding = 60 + sliver
   \<and> totalVramGb afterRounding - vramReserveGb afterRounding = 60
   \<and> 0 < sliver"
proof -
  have facts: "fadd 0 (fdiv 65536 1024) = 64" "fsub 64 0 = 64" "fsub 64 4 = 60"
    "fadd 0 32 = 32" "fsub 64 32 = 32" "fsub 32 4 = 28" "fadd 0 28 = 28"
    by (simp_all add: fadd_def fsub_def fdiv_def)
  have "committedGb afterRounding = 32 + sliver + 28"
    by (simp add: afterRounding_def env64_def committedGb_def allModels_def call_defs
        fadd_sliver facts)
  moreover have "totalVramGb afterRounding - vramReserveGb afterRounding = 60"
    by (simp add: afterRounding_def env64_def call_defs fadd_sliver facts)
  moreover have "0 < sliver" by (simp add: sliver_def)
  ultimately show ?thesis by simp
qed

text \<open>An amount is negative, which the code does not check: a registration of -10 GB
  makes room for 70 GB, and its re-registration with 0 GB is admitted because the
  available amount is clipped at 0.\<close>

definition afterNegativeAmount :: VRAMManager where
  "afterNegativeAmount =
     run [(RegisterService ''svc-a'' ''http://a'' [(''x'', - 10)], env64 0),
          (RegisterService ''svc-b'' ''http://b'' [(''y'', 70)], env64 1),
          (RegisterService ''svc-a'' ''http://a'' [(''x'', 0)], env64 2)]
       (emptyManager 60 4 True 30 Absent)"

lemma negative_amount_breaks_ledger:
  "committedGb afterNegativeAmount = 70
   \<and> totalVramGb afterNegativeAmount - vramReserveGb afterNegativeAmount = 60"
  by (simp add: afterNegativeAmount_def env64_def committedGb_def allModels_def run_defs)

text \<open>C1, as amended. Let no two registrations overlap (while one registration is
  between its status read and its decision, no other registration reads the status or
  decides; other calls may run in between), let every probe of the run report the same
  total \<open>T\<close>, and let the reserve be at most \<open>T\<close>. Let \<open>T\<close>, the reserve and every
  amount that is registered be non-negative multiples of \<open>2 powi - k\<close> GB (for a \<open>k\<close>
  of at most 1074), with \<open>T\<close> and the sum of the amounts of each registration below
  \<open>2 powi (53 - k)\<close> GB, so that no sum is rounded. Then in every state reached from the
  empty registry through \<open>registerService\<close>, \<open>unloadModel\<close>, \<open>updateModelUsage\<close>,
  \<open>autoUnloadInactiveModels\<close> and \<open>getVRAMStatus\<close>, the \<open>vramUsageGb\<close> of all held
  models sum to at most \<open>T\<close> minus the reserve.\<close>

theorem ledger_invariant_fixed_capacity:
  assumes "apart None steps"
    and "list_all (\<lambda>x. fixedProbe T x \<and> plainAmounts k (map snd (stepSpecs x))) steps"
    and "k \<le> 1074" and "grid k T" and "T * 2 ^ k < 2 ^ 53"
    and "grid k reserveGb" and "0 \<le> reserveGb" and "reserveGb \<le> T"
  shows "committedGb (snd (runSteps steps
            (Map.empty, emptyManager maxGb reserveGb autoUnload timeoutMinutes file)))
           \<le> T - reserveGb"
proof -
  let ?st = "emptyManager maxGb reserveGb autoUnload timeoutMinutes file"
  from assms(3) have k: "k \<le> subnormalBits" by (simp add: subnormalBits_def)
  have "ledger k T reserveGb ?st"
    using assms(8)
    by (simp add: ledger_def committedGb_heldGb emptyManager_def map_values_def)
  from apart_ledger [OF k assms(4,5,6,7,8) assms(1,2) this, of Map.empty] show ?thesis
    by (simp add: ledger_def)
qed

text \<open>An instance on a 64 GB card, with amounts in whole megabytes: a registration, a
  second one with an unload between its status read and its decision, a third that is
  refused, an unload and a sweep.\<close>

theorem ledger_invariant_fixed_capacity_witness:
  "apart None
     [Call (RegisterService ''svc-a'' ''http://a'' [(''a1'', 20), (''a2'', 10)]) (env64 0),
      RegisterStatus 0 (env64 1),
      Call (UnloadModel ''a2'' ''svc-a'') (env64 2),
      RegisterDecide 0 ''svc-b'' ''http://b'' [(''b1'', 25), (''b2'', 5 / 1024)] (env64 3),
      Call (RegisterService ''svc-c'' ''http://c'' [(''c1'', 15)]) (env64 4),
      Call (UnloadModel ''b2'' ''svc-b'') (env64 5),
      Call AutoUnloadInactiveModels (env64 6)]
   \<and> list_all (\<lambda>x. fixedProbe 64 x \<and> plainAmounts 10 (map snd (stepSpecs x)))
     [Call (RegisterService ''svc-a'' ''http://a'' [(''a1'', 20), (''a2'', 10)]) (env64 0),
      RegisterStatus 0 (env64 1),
      Call (UnloadModel ''a2'' ''svc-a'') (env64 2),
      RegisterDecide 0 ''svc-b'' ''http://b'' [(''b1'', 25), (''b2'', 5 / 1024)] (env64 3),
      Call (RegisterService ''svc-c'' ''http://c'' [(''c1'', 15)]) (env64 4),
      Call (UnloadModel ''b2'' ''svc-b'') (env64 5),
      Call AutoUnloadInactiveModels (env64 6)]
   \<and> (10 :: nat) \<le> 1074 \<and> grid 10 64 \<and> (64 :: rat) * 2 ^ 10 < 2 ^ 53
   \<and> grid 10 4 \<and> (0 :: rat) \<le> 4 \<and> (4 :: rat) \<le> 64
   \<and> committedGb (snd (runSteps
        [Call (RegisterService ''svc-a'' ''http://a'' [(''a1'', 20), (''a2'', 10)]) (env64 0),
         RegisterStatus 0 (env64 1),
         Call (UnloadModel ''a2'' ''svc-a'') (env64 2),
         RegisterDecide 0 ''svc-b'' ''http://b'' [(''b1'', 25), (''b2'', 5 / 1024)] (env64 3),
         Call (RegisterService ''svc-c'' ''http://c'' [(''c1'', 15)]) (env64 4),
         Call (UnloadModel ''b2'' ''svc-b'') (env64 5),
         Call AutoUnloadInactiveModels (env64 6)]
        (Map.empty, emptyManager 60 4 True 30 Absent))) \<le> 64 - 4"
proof -
  let ?steps = "[Call (RegisterService ''svc-a'' ''http://a'' [(''a1'', 20), (''a2'', 10)]) (env64 0),
      RegisterStatus 0 (env64 1),
      Call (UnloadModel ''a2'' ''svc-a'') (env64 2),
      RegisterDecide 0 ''svc-b'' ''http://b'' [(''b1'', 25), (''b2'', 5 / 1024)] (env64 3),
      Call (RegisterService ''svc-c'' ''http://c'' [(''c1'', 15)]) (env64 4),
      Call (UnloadModel ''b2'' ''svc-b'') (env64 5),
      Call AutoUnloadInactiveModels (env64 6)]"
  have s: "apart None ?steps" by simp
  have p: "probedTotal (gpu (env64 t)) = 64" for t
    by (simp add: probedTotal_def updateTotalVram_def env64_def emptyManager_def fadd_def fdiv_def)
  have a: "list_all (\<lambda>x. fixedProbe 64 x \<and> plainAmounts 10 (map snd (stepSpecs x))) ?steps"
    by (simp add: p plainAmounts_def grid_def)
  have k: "(10 :: nat) \<le> 1074" by simp
  have T: "grid 10 64" "(64 :: rat) * 2 ^ 10 < 2 ^ 53" by (simp_all add: grid_def)
  have R: "grid 10 4" "(0 :: rat) \<le> 4" "(4 :: rat) \<le> 64" by (simp_all add: grid_def)
  from ledger_invariant_fixed_capacity [OF s a k T R, of 60 True 30 Absent]
  have "committedGb (snd (runSteps ?steps (Map.empty, emptyManager 60 4 True 30 Absent)))
      \<le> 64 - 4" .
  with s a k T R show ?thesis by (intro conjI)
qed

subsection \<open>C3: a registration above the capacity\<close>

text \<open>What a service holds itself, and the room that the total leaves after the reserve
  when every model of every other service is evicted.\<close>

definition ownHeld :: "string \<Rightarrow> VRAMManager \<Rightarrow> rat" where
  "ownHeld serviceName st =
     (case map_get (services st) serviceName of None \<Rightarrow> 0 | Some service \<Rightarrow> heldGb service)"

definition roomWithoutOthers :: "rat \<Rightarrow> string \<Rightarrow> VRAMManager \<Rightarrow> rat" where
  "roomWithoutOthers T serviceName st = T - vramReserveGb st - ownHeld serviceName st"

lemma member_le_sum_list_nonneg:
  fixes f :: "'a \<Rightarrow> rat"
  shows "x \<in> set xs \<Longrightarrow> \<forall>y \<in> set xs. 0 \<le> f y \<Longrightarrow> f x \<le> sum_list (map f xs)"
proof (induction xs)
  case Nil
  then show ?case by simp
next
  case (Cons a xs)
  from Cons.prems(2) have rest: "0 \<le> sum_list (map f xs)" and a: "0 \<le> f a"
    by (auto intro!: sum_list_nonneg)
  show ?case
  proof (cases "x = a")
    case True
    with rest show ?thesis by simp
  next
    case False
    with Cons have "f x \<le> sum_list (map f xs)" by simp
    with a show ?thesis by simp
  qed
qed

lemma ownHeld_le_committedGb:
  assumes "list_all (plainService k) (map_values (services st))"
  shows "ownHeld serviceName st \<le> committedGb st"
proof (cases "map_get (services st) serviceName")
  case None
  with committedGb_nonneg [OF assms] show ?thesis by (simp add: ownHeld_def)
next
  case (Some service)
  then have mem: "service \<in> set (map_values (services st))"
    by (simp add: map_get_def map_of_values)
  from assms have "\<forall>y \<in> set (map_values (services st)). 0 \<le> heldGb y"
    by (auto simp: list_all_iff plainService_nonneg)
  from member_le_sum_list_nonneg [OF mem this] Some show ?thesis
    by (simp add: ownHeld_def committedGb_heldGb)
qed

text \<open>A card of 2 GB and a card of 64 GB on which a service holds -10 GB.\<close>

definition env2 :: env where
  "env2 = \<lparr>now = 0, gpu = Controllers [Some 2048], fsWritable = True, fetchResult = FetchOk\<rparr>"

definition negativeHeld :: VRAMManager where
  "negativeHeld =
     run [(RegisterService ''svc-a'' ''http://a'' [(''x'', - 10)], env64 0)]
       (emptyManager 60 4 True 30 Absent)"

text \<open>C3 as stated (a registration whose requested total exceeds the total capacity minus
  the reserve, even after every other service's models are evicted, is rejected and leaves
  the registry as it was) is false here. On a card of 2 GB with a reserve of 4 GB a
  request for 0 GB exceeds the capacity minus the reserve, which is -2 GB, and is
  accepted into the empty registry, because the available amount is clipped at 0. On a
  card of 64 GB with a reserve of 4 GB, where another service holds -10 GB, a request for
  65 GB exceeds the 60 GB that the capacity leaves and is accepted, because the code
  neither evicts nor checks the sign of an amount. Both registrations change the
  registry.\<close>

theorem rejection_counterexample:
  "probedTotal (gpu env2) - vramReserveGb (emptyManager 60 4 True 30 Absent) = - 2
   \<and> requestedGb [(''m'', 0)] = 0
   \<and> reg_success (fst (registerService ''svc'' ''http://svc'' [(''m'', 0)] env2
        (emptyManager 60 4 True 30 Absent)))
   \<and> map fst (services (snd (registerService ''svc'' ''http://svc'' [(''m'', 0)] env2
        (emptyManager 60 4 True 30 Absent)))) = [''svc'']
   \<and> services (emptyManager 60 4 True 30 Absent) = []
   \<and> probedTotal (gpu (env64 1)) - vramReserveGb negativeHeld = 60
   \<and> requestedGb [(''y'', 65)] = 65
   \<and> reg_success (fst (registerService ''svc-b'' ''http://b'' [(''y'', 65)] (env64 1)
        negativeHeld))
   \<and> map fst (services negativeHeld) = [''svc-a'']
   \<and> map fst (services (snd (registerService ''svc-b'' ''http://b'' [(''y'', 65)] (env64 1)
        negativeHeld))) = [''svc-a'', ''svc-b'']"
  by (simp add: env2_def negativeHeld_def env64_def probedTotal_def requestedGb_def run_defs)

text \<open>C3, as amended. Let the registry hold non-negative multiples of \<open>2 powi - k\<close> GB
  (for a \<open>k\<close> of at most 1074) with exact caches, as in every state reached with
  such amounts, and let the probed total and the reserve be non-negative multiples of
  \<open>2 powi - k\<close> GB too, the total, and the reserve plus all held amounts, below
  \<open>2 powi (53 - k)\<close> GB, so that no sum is rounded. The room that evicting every other
  service's models could make at most is the total minus the reserve minus what the
  caller holds itself. A registration whose requested total, as \<^verbatim>\<open>reduce\<close> computes it,
  is positive and exceeds that room is refused with the not-enough-VRAM message, and the
  services (names, urls, models, amounts, timestamps), the config file and the outbound
  effects are exactly as before the call: nothing is evicted and nothing is saved. The
  same holds when other calls run between the status read of the registration and its
  decision: the decision leaves the state that it finds as it is.\<close>

theorem rejection_atomic:
  assumes "k \<le> 1074"
    and "list_all (plainService k) (map_values (services st))"
    and "grid k (probedTotal (gpu e))" and "0 \<le> probedTotal (gpu e)"
    and "probedTotal (gpu e) * 2 ^ k < 2 ^ 53"
    and "grid k (vramReserveGb st)" and "0 \<le> vramReserveGb st"
    and "(committedGb st + vramReserveGb st) * 2 ^ k < 2 ^ 53"
    and "0 < requestedGb ms"
    and "roomWithoutOthers (probedTotal (gpu e)) serviceName st < requestedGb ms"
  shows "\<not> reg_success (fst (registerService serviceName serviceUrl ms e st))
     \<and> reg_message (fst (registerService serviceName serviceUrl ms e st))
         = NotEnoughVRAM (requestedGb ms) (status_availableVramGb (fst (getVRAMStatus e st)))
     \<and> services (snd (registerService serviceName serviceUrl ms e st)) = services st
     \<and> configFile (snd (registerService serviceName serviceUrl ms e st)) = configFile st
     \<and> effects (snd (registerService serviceName serviceUrl ms e st)) = effects st
     \<and> (\<forall>e' st'. registerServiceDecide serviceName serviceUrl ms (fst (getVRAMStatus e st)) e' st'
           = (\<lparr>reg_success = False,
               reg_message = NotEnoughVRAM (requestedGb ms)
                               (status_availableVramGb (fst (getVRAMStatus e st)))\<rparr>, st'))"
proof -
  let ?T = "probedTotal (gpu e)"
  from assms(1) have k: "k \<le> subnormalBits" by (simp add: subnormalBits_def)
  from availableGb_plain [OF assms(2) k assms(3-8)]
  have avail: "availableGb ?T st = max 0 (?T - committedGb st - vramReserveGb st)" .
  from ownHeld_le_committedGb [OF assms(2), of serviceName] assms(10)
  have "?T - committedGb st - vramReserveGb st < requestedGb ms"
    by (simp add: roomWithoutOthers_def)
  with assms(9) have less: "availableGb ?T st < requestedGb ms"
    by (simp add: avail)
  then have "status_availableVramGb (fst (getVRAMStatus e st)) < requestedGb ms"
    by (simp add: getVRAMStatus_available)
  from decide_rejected [OF this]
  have "\<forall>e' st'. registerServiceDecide serviceName serviceUrl ms (fst (getVRAMStatus e st)) e' st'
           = (\<lparr>reg_success = False,
               reg_message = NotEnoughVRAM (requestedGb ms)
                               (status_availableVramGb (fst (getVRAMStatus e st)))\<rparr>, st')"
    by simp
  with less show ?thesis
    by (simp add: register_rejected getVRAMStatus_available)
qed

theorem rejection_atomic_witness:
  "(10 :: nat) \<le> 1074
   \<and> list_all (plainService 10) (map_values (services twoServices))
   \<and> grid 10 (probedTotal (gpu (env64 2))) \<and> 0 \<le> probedTotal (gpu (env64 2))
   \<and> probedTotal (gpu (env64 2)) * 2 ^ 10 < 2 ^ 53
   \<and> grid 10 (vramReserveGb twoServices) \<and> 0 \<le> vramReserveGb twoServices
   \<and> (committedGb twoServices + vramReserveGb twoServices) * 2 ^ 10 < 2 ^ 53
   \<and> 0 < requestedGb [(''c1'', 61)]
   \<and> roomWithoutOthers (probedTotal (gpu (env64 2))) ''svc-c'' twoServices
       < requestedGb [(''c1'', 61)]
   \<and> \<not> reg_success (fst (registerService ''svc-c'' ''http://c'' [(''c1'', 61)] (env64 2) twoServices))
   \<and> reg_message (fst (registerService ''svc-c'' ''http://c'' [(''c1'', 61)] (env64 2) twoServices))
         = NotEnoughVRAM 61 10
   \<and> services (snd (registerService ''svc-c'' ''http://c'' [(''c1'', 61)] (env64 2) twoServices))
         = services twoServices
   \<and> configFile (snd (registerService ''svc-c'' ''http://c'' [(''c1'', 61)] (env64 2) twoServices))
         = configFile twoServices
   \<and> effects (snd (registerService ''svc-c'' ''http://c'' [(''c1'', 61)] (env64 2) twoServices))
         = effects twoServices"
proof -
  have k: "(10 :: nat) \<le> 1074" by simp
  have T: "probedTotal (gpu (env64 2)) = 64"
    by (simp add: probedTotal_def updateTotalVram_def env64_def emptyManager_def fadd_def fdiv_def)
  have R: "vramReserveGb twoServices = 4"
    by (simp add: twoServices_def env64_def run_defs)
  have C: "committedGb twoServices = 50"
    by (simp add: twoServices_def env64_def run_defs committedGb_def allModels_def)
  have q: "requestedGb [(''c1'', 61)] = 61"
    by (simp add: requestedGb_def fadd_def)
  have p: "list_all (plainService 10) (map_values (services twoServices))"
    by (simp add: twoServices_def env64_def run_defs plainService_def plainAmounts_def
        grid_def heldGb_def)
  have h1: "grid 10 (probedTotal (gpu (env64 2)))" "0 \<le> probedTotal (gpu (env64 2))"
    "probedTotal (gpu (env64 2)) * 2 ^ 10 < 2 ^ 53"
    by (simp_all add: T grid_def)
  have h2: "grid 10 (vramReserveGb twoServices)" "0 \<le> vramReserveGb twoServices"
    "(committedGb twoServices + vramReserveGb twoServices) * 2 ^ 10 < 2 ^ 53"
    by (simp_all add: R C grid_def)
  have h3: "0 < requestedGb [(''c1'', 61)]" by (simp add: q)
  have h4: "roomWithoutOthers (probedTotal (gpu (env64 2))) ''svc-c'' twoServices
       < requestedGb [(''c1'', 61)]"
    by (simp add: roomWithoutOthers_def ownHeld_def T R q)
       (simp add: twoServices_def env64_def run_defs)
  have v: "status_availableVramGb (fst (getVRAMStatus (env64 2) twoServices)) = 10"
    by (simp add: twoServices_def env64_def run_defs)
  note inst = rejection_atomic [OF k p h1 h2 h3 h4, of "''http://c''"]
  from inst have 1: "\<not> reg_success (fst (registerService ''svc-c'' ''http://c'' [(''c1'', 61)]
      (env64 2) twoServices))"
    by (rule conjunct1)
  from inst have 2: "reg_message (fst (registerService ''svc-c'' ''http://c'' [(''c1'', 61)]
      (env64 2) twoServices)) = NotEnoughVRAM 61 10"
    by (simp only: q v)
  from inst have 3: "services (snd (registerService ''svc-c'' ''http://c'' [(''c1'', 61)]
      (env64 2) twoServices)) = services twoServices"
    by (elim conjE)
  from inst have 4: "configFile (snd (registerService ''svc-c'' ''http://c'' [(''c1'', 61)]
      (env64 2) twoServices)) = configFile twoServices"
    by (elim conjE)
  from inst have 5: "effects (snd (registerService ''svc-c'' ''http://c'' [(''c1'', 61)]
      (env64 2) twoServices)) = effects twoServices"
    by (elim conjE)
  from k p h1 h2 h3 h4 1 2 3 4 5 show ?thesis by (intro conjI)
qed

end
